theory Spec2Isabelle
  imports Main "HOL-Library.AList" "HOL-Library.Product_Lexorder" "HOL-Library.Sublist"
begin

section \<open>Python strings\<close>

text \<open>
  A Python \<open>str\<close> is a sequence of Unicode code points. A code point is a natural
  number, a string is a list of them. ASCII literals are written \<open>ascii ''...''\<close>;
  the few non-ASCII literals of the source are spelled out by code point.
\<close>

type_synonym pychar = nat
type_synonym pystr = "pychar list"

definition ascii :: "string \<Rightarrow> pystr" where
  "ascii s = map of_char s"

definition SP :: pychar where "SP = 0x20"
definition TAB :: pychar where "TAB = 0x09"
definition NL :: pychar where "NL = 0x0A"
definition CR :: pychar where "CR = 0x0D"
definition NBSP :: pychar where "NBSP = 0xA0"
definition BULLET :: pychar where "BULLET = 0x2022"
definition SLASH :: pychar where "SLASH = 0x2F"

text \<open>
  \<open>str.isspace\<close> on one code point: the characters \<open>str.strip()\<close> removes when
  called without an argument (CPython's \<open>_PyUnicode_IsWhitespace\<close>).
\<close>

definition is_space :: "pychar \<Rightarrow> bool" where
  "is_space c \<longleftrightarrow>
     (0x09 \<le> c \<and> c \<le> 0x0D) \<or> (0x1C \<le> c \<and> c \<le> 0x20) \<or> c = 0x85 \<or> c = 0xA0 \<or>
     c = 0x1680 \<or> (0x2000 \<le> c \<and> c \<le> 0x200A) \<or> c = 0x2028 \<or> c = 0x2029 \<or>
     c = 0x202F \<or> c = 0x205F \<or> c = 0x3000"

text \<open>\<open>s.strip()\<close>: whitespace removed at both ends.\<close>

definition strip :: "pystr \<Rightarrow> pystr" where
  "strip s = rev (dropWhile is_space (rev (dropWhile is_space s)))"

text \<open>\<open>s.replace(a, b)\<close> for one-character strings \<open>a\<close> and \<open>b\<close>.\<close>

definition replace :: "pychar \<Rightarrow> pychar \<Rightarrow> pystr \<Rightarrow> pystr" where
  "replace a b s = map (\<lambda>c. if c = a then b else c) s"

text \<open>
  \<open>re.sub(r"[ \t]+", " ", s)\<close>: every maximal run of spaces and tabs becomes one
  space. A blank followed by a blank is dropped; the last blank of a run is written
  as a space.
\<close>

definition is_blank :: "pychar \<Rightarrow> bool" where
  "is_blank c \<longleftrightarrow> c = SP \<or> c = TAB"

fun sub_blanks :: "pystr \<Rightarrow> pystr" where
  "sub_blanks [] = []"
| "sub_blanks [c] = (if is_blank c then [SP] else [c])"
| "sub_blanks (c # d # cs) =
     (if is_blank c then (if is_blank d then sub_blanks (d # cs) else SP # sub_blanks (d # cs))
      else c # sub_blanks (d # cs))"

text \<open>
  \<open>re.sub(r"\n{3,}", "\n\n", s)\<close>: every maximal run of three or more newlines
  becomes two. A newline followed by two more is dropped, so exactly two of the run
  remain; shorter runs are untouched.
\<close>

fun sub_newlines :: "pystr \<Rightarrow> pystr" where
  "sub_newlines (a # b # c # cs) =
     (if a = NL \<and> b = NL \<and> c = NL then sub_newlines (b # c # cs)
      else a # sub_newlines (b # c # cs))"
| "sub_newlines cs = cs"

text \<open>\<open>s.split("\n")\<close>: the pieces between newlines; the empty string gives \<open>[""]\<close>.\<close>

fun split_nl :: "pystr \<Rightarrow> pystr list" where
  "split_nl [] = [[]]"
| "split_nl (c # cs) =
     (if c = NL then [] # split_nl cs
      else (case split_nl cs of [] \<Rightarrow> [[c]] | l # ls \<Rightarrow> (c # l) # ls))"

text \<open>\<open>" ".join(lines)\<close>.\<close>

fun join_sp :: "pystr list \<Rightarrow> pystr" where
  "join_sp [] = []"
| "join_sp [l] = l"
| "join_sp (l # ls) = l @ SP # join_sp ls"

text \<open>\<open>s.startswith(p)\<close>.\<close>

definition startswith :: "pystr \<Rightarrow> pystr \<Rightarrow> bool" where
  "startswith s p \<longleftrightarrow> take (length p) s = p"

section \<open>The Unicode tables\<close>

text \<open>
  \<open>str.upper\<close>, the digits \<open>\d\<close> matches and the values \<open>int\<close> gives them come from
  the Unicode character database of the interpreter, which is no part of the
  repository. The functions below take these tables as a parameter, and every
  general theorem holds for all tables. \<open>decimal U c\<close> is the value of \<open>c\<close> as a
  decimal digit, \<open>None\<close> when \<open>c\<close> is no decimal digit.
\<close>

record unicode =
  upper :: "pystr \<Rightarrow> pystr"
  decimal :: "pychar \<Rightarrow> nat option"

text \<open>
  The tables restricted to Basic Latin, for the concrete examples: \<open>a\<close> to \<open>z\<close> go
  to \<open>A\<close> to \<open>Z\<close>, \<open>0\<close> to \<open>9\<close> are the digits, every other code point is left as it
  is. This agrees with Python on the strings of the examples, whose cased letters
  are Basic Latin letters or capitals.
\<close>

definition ascii_upper :: "pychar \<Rightarrow> pychar" where
  "ascii_upper c = (if 0x61 \<le> c \<and> c \<le> 0x7A then c - 0x20 else c)"

definition ascii_decimal :: "pychar \<Rightarrow> nat option" where
  "ascii_decimal c = (if 0x30 \<le> c \<and> c \<le> 0x39 then Some (c - 0x30) else None)"

definition basic_latin :: unicode where
  "basic_latin = \<lparr>upper = map ascii_upper, decimal = ascii_decimal\<rparr>"

section \<open>parse\_menu.py: text normalisation\<close>

text \<open>
  A table cell as pdfplumber delivers it: a string or \<open>None\<close>. \<open>_norm\<close> reads
  \<open>None\<close> as the empty string (\<open>s or ""\<close>).
\<close>

type_synonym cell = "pystr option"

definition or_empty :: "cell \<Rightarrow> pystr" where
  "or_empty c = (case c of None \<Rightarrow> [] | Some s \<Rightarrow> s)"

definition norm :: "cell \<Rightarrow> pystr" where
  "norm s0 =
     (let s = strip (replace NBSP SP (or_empty s0));
          s = sub_blanks s;
          s = replace CR NL s;
          s = sub_newlines s
      in strip s)"

text \<open>
  \<open>_cell_to_items\<close>. Both branches for two or more lines return the joined lines,
  as in the source.
\<close>

definition cell_lines :: "pystr \<Rightarrow> pystr list" where
  "cell_lines cell = map strip (filter (\<lambda>ln. strip ln \<noteq> []) (split_nl cell))"

definition cell_to_items :: "cell \<Rightarrow> pystr list" where
  "cell_to_items c =
     (let cell = norm c in
      if cell = [] then []
      else
        let cell = strip (replace BULLET SP cell);
            lines = cell_lines cell
        in if length lines \<le> 1 then [cell]
           else if SLASH \<in> set (hd lines) then [join_sp lines]
           else [join_sp lines])"

section \<open>parse\_menu.py: weekday labels and the table scorer\<close>

datatype weekday = Monday | Tuesday | Wednesday | Thursday | Friday

text \<open>\<open>DAY_MAP\<close>, in the order of the source; \<open>for d in DAY_MAP\<close> runs over its keys.\<close>

definition DAY_MAP :: "(pystr \<times> weekday) list" where
  "DAY_MAP =
     [(ascii ''PAZARTES'' @ [0x130], Monday),
      (ascii ''PAZARTESI'', Monday),
      (ascii ''SALI'', Tuesday),
      (0xC7 # ascii ''AR'' @ 0x15E # ascii ''AMBA'', Wednesday),
      (ascii ''CARSAMBA'', Wednesday),
      (ascii ''PER'' @ 0x15E # ascii ''EMBE'', Thursday),
      (ascii ''PERSEMBE'', Thursday),
      (ascii ''CUMA'', Friday)]"

definition day_labels :: "pystr list" where
  "day_labels = map fst DAY_MAP"

definition DAYS_EN :: "weekday list" where
  "DAYS_EN = [Monday, Tuesday, Wednesday, Thursday, Friday]"

type_synonym row = "cell list"
type_synonym table = "row list"

text \<open>Truth value of a cell in \<open>if c\<close>: neither \<open>None\<close> nor the empty string.\<close>

definition truthy :: "cell \<Rightarrow> bool" where
  "truthy c \<longleftrightarrow> c \<noteq> None \<and> c \<noteq> Some []"

text \<open>\<open>max((len(r) for r in table if r), default=0)\<close>.\<close>

definition max_default :: "nat list \<Rightarrow> nat \<Rightarrow> nat" where
  "max_default xs d = (case xs of [] \<Rightarrow> d | x # ys \<Rightarrow> fold max ys x)"

definition max_cols :: "table \<Rightarrow> nat" where
  "max_cols table = max_default (map length (filter (\<lambda>r. r \<noteq> []) table)) 0"

text \<open>The inner loop of \<open>_score_table\<close>: five points for every key of \<open>DAY_MAP\<close> in \<open>rr\<close>.\<close>

definition score_row :: "unicode \<Rightarrow> row \<Rightarrow> int \<Rightarrow> int" where
  "score_row U r score =
     (let rr = map (\<lambda>c. upper U (norm c)) (filter truthy r)
      in fold (\<lambda>d score. if d \<in> set rr then score + 5 else score) day_labels score)"

definition score_table :: "unicode \<Rightarrow> table \<Rightarrow> int" where
  "score_table U table =
     (if table = [] then - 10
      else
        let score = 0;
            score = (if max_cols table \<ge> 5 then score + 10 else score);
            score = fold (score_row U) (take 6 table) score
        in score + int (min (length table) 30))"

text \<open>
  The weekday-label hits of the scorer: for a row, the number of keys of \<open>DAY_MAP\<close>
  found among its normalised, upper-cased non-empty cells; for a table, the sum over
  its first six rows.
\<close>

definition scorer_row_hits :: "unicode \<Rightarrow> row \<Rightarrow> nat" where
  "scorer_row_hits U r =
     length (filter (\<lambda>d. d \<in> set (map (\<lambda>c. upper U (norm c)) (filter truthy r))) day_labels)"

definition scorer_hits :: "unicode \<Rightarrow> table \<Rightarrow> nat" where
  "scorer_hits U table = sum_list (map (scorer_row_hits U) (take 6 table))"

section \<open>Errors and loops\<close>

text \<open>
  The exceptions the modelled code can raise, as values: a function that may raise
  returns \<open>error + 'a\<close>. \<open>PdfplumberError\<close> stands for any exception raised inside a
  call of pdfplumber that the code does not catch. \<open>and_then\<close> sequences two steps,
  \<open>for_each\<close> is a \<open>for\<close> loop whose body updates the state and may raise.
\<close>

datatype error = KeyError | IndexError | ValueError | PdfplumberError

definition and_then :: "error + 'a \<Rightarrow> ('a \<Rightarrow> error + 'b) \<Rightarrow> error + 'b" where
  "and_then m f = (case m of Inl e \<Rightarrow> Inl e | Inr x \<Rightarrow> f x)"

fun for_each :: "'a list \<Rightarrow> ('a \<Rightarrow> 's \<Rightarrow> error + 's) \<Rightarrow> 's \<Rightarrow> error + 's" where
  "for_each [] body s = Inr s"
| "for_each (x # xs) body s = and_then (body x s) (for_each xs body)"

section \<open>Regular expressions of the source\<close>

text \<open>
  The patterns of the source are sequences of one-character atoms, each with a
  greedy bounded repetition. \<open>match_items\<close> matches a pattern at the start of a
  string as a backtracking matcher does: for each item the longest repetition
  first, then shorter ones, the first overall success wins. It returns the piece of
  text each item matched. \<open>search\<close> is \<open>re.search\<close>: the match at the leftmost
  position that has one.
\<close>

datatype atom = Digit | Space | Lit pychar

type_synonym item = "atom \<times> nat \<times> nat option"

definition matches :: "unicode \<Rightarrow> atom \<Rightarrow> pychar \<Rightarrow> bool" where
  "matches U a c =
     (case a of Digit \<Rightarrow> decimal U c \<noteq> None | Space \<Rightarrow> is_space c | Lit l \<Rightarrow> c = l)"

definition max_run :: "unicode \<Rightarrow> atom \<Rightarrow> nat option \<Rightarrow> pystr \<Rightarrow> nat" where
  "max_run U a hi s =
     (let n = length (takeWhile (matches U a) s)
      in case hi of None \<Rightarrow> n | Some h \<Rightarrow> min n h)"

fun first_some :: "('a \<Rightarrow> 'b option) \<Rightarrow> 'a list \<Rightarrow> 'b option" where
  "first_some f [] = None"
| "first_some f (x # xs) = (case f x of Some y \<Rightarrow> Some y | None \<Rightarrow> first_some f xs)"

fun match_items :: "unicode \<Rightarrow> item list \<Rightarrow> pystr \<Rightarrow> pystr list option" where
  "match_items U [] s = Some []"
| "match_items U ((a, lo, hi) # its) s =
     first_some
       (\<lambda>n. case match_items U its (drop n s) of
              None \<Rightarrow> None
            | Some ps \<Rightarrow> Some (take n s # ps))
       (rev [lo..<Suc (max_run U a hi s)])"

fun search :: "unicode \<Rightarrow> item list \<Rightarrow> pystr \<Rightarrow> pystr list option" where
  "search U its [] = match_items U its []"
| "search U its (c # cs) =
     (case match_items U its (c # cs) of Some ps \<Rightarrow> Some ps | None \<Rightarrow> search U its cs)"

definition digits :: "nat \<Rightarrow> nat \<Rightarrow> item" where
  "digits lo hi = (Digit, lo, Some hi)"

definition lit :: "char \<Rightarrow> item" where
  "lit c = (Lit (of_char c), 1, Some 1)"

definition spaces :: item where
  "spaces = (Space, 0, None)"

section \<open>parse\_menu.py: extract\_menu\_from\_pdf\<close>

text \<open>
  What the code asks of pdfplumber. Every call may raise, and a result may be
  \<open>None\<close>. \<open>pdfplumber.open(pdf_path)\<close> raises or gives the document; the code reads
  \<open>pdf.pages\<close>, and leaving the \<open>with\<close> block closes the document. Of a page the code
  calls \<open>extract_text\<close>, \<open>extract_tables\<close> and \<open>extract_table\<close>. Only the two table
  calls are inside \<open>try\<close> blocks: an exception of \<open>open\<close>, of \<open>extract_text\<close> or of
  closing leaves \<open>extract_menu_from_pdf\<close>.
\<close>

datatype 'a outcome = Raises | Returns 'a

datatype strategy = Lines | Text

record table_settings =
  vertical_strategy :: strategy
  horizontal_strategy :: strategy
  intersection_tolerance :: nat

record page =
  extract_text :: "pystr option outcome"
  extract_tables :: "table_settings \<Rightarrow> table list option outcome"
  extract_table :: "table option outcome"

record pdf =
  pages :: "page list"
  close :: "unit outcome"

type_synonym days = "(weekday \<times> pystr list) list"
type_synonym colmap = "(weekday \<times> nat) list"

text \<open>\<open>{d: [] for d in DAYS_EN}\<close>: a dictionary keeps the order of insertion.\<close>

definition init_days :: days where
  "init_days = map (\<lambda>d. (d, [])) DAYS_EN"

text \<open>\<open>(\d{1,2}\.\d{1,2}\.\d{4}\s*/\s*\d{1,2}\.\d{1,2}\.\d{4})\<close>\<close>

definition date_pattern :: "item list" where
  "date_pattern =
     [digits 1 2, lit CHR ''.'', digits 1 2, lit CHR ''.'', digits 4 4, spaces, lit CHR ''/'',
      spaces, digits 1 2, lit CHR ''.'', digits 1 2, lit CHR ''.'', digits 4 4]"

definition find_date_range :: "unicode \<Rightarrow> pystr \<Rightarrow> pystr option" where
  "find_date_range U text =
     (case search U date_pattern text of
        None \<Rightarrow> None
      | Some ps \<Rightarrow> Some (filter (\<lambda>c. c \<noteq> SP) (concat ps)))"

definition settings_variants :: "table_settings list" where
  "settings_variants =
     [\<lparr>vertical_strategy = Lines, horizontal_strategy = Lines, intersection_tolerance = 5\<rparr>,
      \<lparr>vertical_strategy = Lines, horizontal_strategy = Text, intersection_tolerance = 5\<rparr>,
      \<lparr>vertical_strategy = Text, horizontal_strategy = Lines, intersection_tolerance = 5\<rparr>]"

text \<open>\<open>page.extract_tables(table_settings=settings) or []\<close>, \<open>[]\<close> when the call raises.\<close>

definition tables_for :: "page \<Rightarrow> table_settings \<Rightarrow> table list" where
  "tables_for pg settings =
     (case extract_tables pg settings of
        Raises \<Rightarrow> []
      | Returns None \<Rightarrow> []
      | Returns (Some ts) \<Rightarrow> ts)"

text \<open>The body of the selection loop; the state is \<open>(best_table, best_score)\<close>.\<close>

definition consider_table :: "unicode \<Rightarrow> table \<Rightarrow> table option \<times> int \<Rightarrow> table option \<times> int" where
  "consider_table U t best =
     (let sc = score_table U t
      in if sc > snd best then (Some t, sc) else best)"

definition select_best :: "unicode \<Rightarrow> page \<Rightarrow> table option \<times> int" where
  "select_best U pg =
     fold (\<lambda>settings. fold (consider_table U) (tables_for pg settings)) settings_variants (None, - 10)"

text \<open>\<open>not best_table\<close>: \<open>None\<close> or a table without rows.\<close>

definition no_table :: "table option \<Rightarrow> bool" where
  "no_table bt \<longleftrightarrow> bt = None \<or> bt = Some []"

definition fallback :: "page \<Rightarrow> table option \<Rightarrow> table option" where
  "fallback pg best_table =
     (if no_table best_table then
        (case extract_table pg of
           Raises \<Rightarrow> None
         | Returns t \<Rightarrow> if no_table t then best_table else t)
      else best_table)"

text \<open>The header row: \<open>hits = sum(1 for k in DAY_MAP if k in r)\<close>, first row with three.\<close>

definition header_hits :: "unicode \<Rightarrow> row \<Rightarrow> nat" where
  "header_hits U row =
     (let r = map (\<lambda>c. upper U (norm c)) row
      in length (filter (\<lambda>k. k \<in> set r) day_labels))"

fun first_header :: "unicode \<Rightarrow> (nat \<times> row) list \<Rightarrow> nat option" where
  "first_header U [] = None"
| "first_header U ((i, row) # rest) =
     (if header_hits U row \<ge> 3 then Some i else first_header U rest)"

definition header_row_idx :: "unicode \<Rightarrow> table \<Rightarrow> nat" where
  "header_row_idx U best_table =
     (case first_header U (enumerate 0 (take 10 best_table)) of None \<Rightarrow> 0 | Some i \<Rightarrow> i)"

text \<open>
  The column of each weekday: a later column with the same weekday overwrites an
  earlier one; with fewer than five weekdays the positional mapping replaces all.
\<close>

definition label_columns :: "unicode \<Rightarrow> row \<Rightarrow> colmap" where
  "label_columns U hdr =
     fold (\<lambda>(j, cell) m. case map_of DAY_MAP cell of
                           None \<Rightarrow> m
                         | Some d \<Rightarrow> AList.update d j m)
       (enumerate 0 (map (\<lambda>c. upper U (norm c)) hdr)) []"

definition positional :: colmap where
  "positional = map (\<lambda>k. (DAYS_EN ! k, k)) [0..<5]"

definition col_idx_for_day :: "unicode \<Rightarrow> row \<Rightarrow> colmap" where
  "col_idx_for_day U hdr =
     (let m = label_columns U hdr
      in if length m < 5 then positional else m)"

text \<open>Content rows.\<close>

definition skip_row :: "row \<Rightarrow> bool" where
  "skip_row row \<longleftrightarrow> row = [] \<or> length (filter (\<lambda>c. norm c \<noteq> []) row) \<le> 1"

definition row_cells :: "row \<Rightarrow> row" where
  "row_cells row = row @ replicate (5 - length row) (Some [])"

definition OGRENCI :: pystr where
  "OGRENCI = [0xD6, 0x11E] @ ascii ''RENC'' @ [0x130]"

definition ASCIBASI :: pystr where
  "ASCIBASI = ascii ''AS'' @ 0xC7 # ascii ''IBA'' @ 0x15E # ascii ''I''"

definition add_dish :: "unicode \<Rightarrow> weekday \<Rightarrow> pystr \<Rightarrow> days \<Rightarrow> error + days" where
  "add_dish U day_en dish0 days =
     (let dish = norm (Some dish0) in
      if dish = [] then Inr days
      else
        let up = upper U dish in
        if startswith up OGRENCI \<or> startswith up (ascii ''PERSONEL'') then Inr days
        else if startswith up ASCIBASI \<or> startswith up (ascii ''NOT:'') then Inr days
        else
          (case map_of days day_en of
             None \<Rightarrow> Inl KeyError
           | Some xs \<Rightarrow>
               if dish \<notin> set xs then Inr (AList.update day_en (xs @ [dish]) days)
               else Inr days))"

definition read_day :: "unicode \<Rightarrow> colmap \<Rightarrow> row \<Rightarrow> weekday \<Rightarrow> days \<Rightarrow> error + days" where
  "read_day U cols cells day_en days =
     (case map_of cols day_en of
        None \<Rightarrow> Inr days
      | Some j \<Rightarrow>
          if j \<ge> length cells then Inr days
          else for_each (cell_to_items (cells ! j)) (add_dish U day_en) days)"

definition read_row :: "unicode \<Rightarrow> colmap \<Rightarrow> row \<Rightarrow> days \<Rightarrow> error + days" where
  "read_row U cols row days =
     (if skip_row row then Inr days
      else for_each DAYS_EN (read_day U cols (row_cells row)) days)"

text \<open>\<open>days[d] = [x for x in days[d] if _norm(x).upper() not in DAY_MAP]\<close>\<close>

definition drop_day_tokens :: "unicode \<Rightarrow> weekday \<Rightarrow> days \<Rightarrow> error + days" where
  "drop_day_tokens U d days =
     (case map_of days d of
        None \<Rightarrow> Inl KeyError
      | Some xs \<Rightarrow>
          Inr (AList.update d
                 (filter (\<lambda>x. upper U (norm (Some x)) \<notin> set day_labels) xs) days))"

text \<open>
  \<open>extract_menu_from_pdf\<close>, from the inside out: \<open>read_table\<close> is the part after a
  table is chosen, \<open>read_page\<close> the part after \<open>page.extract_text()\<close> has returned
  \<open>txt\<close>, \<open>with_body\<close> the body of the \<open>with\<close> block. The argument of the function is
  what \<open>pdfplumber.open(pdf_path)\<close> does.
\<close>

definition read_table :: "unicode \<Rightarrow> table \<Rightarrow> days \<Rightarrow> error + days" where
  "read_table U best_table days =
     (let header_row_idx = header_row_idx U best_table in
      if header_row_idx \<ge> length best_table then Inl IndexError
      else
        let hdr = best_table ! header_row_idx;
            cols = col_idx_for_day U hdr
        in and_then (for_each (drop (header_row_idx + 1) best_table) (read_row U cols) days)
             (for_each DAYS_EN (drop_day_tokens U)))"

definition read_page :: "unicode \<Rightarrow> page \<Rightarrow> pystr option \<Rightarrow> error + days \<times> pystr option" where
  "read_page U pg txt =
     (let days = init_days;
          text = norm (Some (or_empty txt));
          date_range = find_date_range U text;
          best_table = fallback pg (fst (select_best U pg))
      in case best_table of
           None \<Rightarrow> Inr (days, date_range)
         | Some bt \<Rightarrow>
             if bt = [] then Inr (days, date_range)
             else and_then (read_table U bt days) (\<lambda>days. Inr (days, date_range)))"

definition with_body :: "unicode \<Rightarrow> page list \<Rightarrow> error + days \<times> pystr option" where
  "with_body U ps =
     (let days = init_days; date_range = None in
      case ps of
        [] \<Rightarrow> Inr (days, date_range)
      | pg # _ \<Rightarrow>
          (case extract_text pg of
             Raises \<Rightarrow> Inl PdfplumberError
           | Returns txt \<Rightarrow> read_page U pg txt))"

definition extract_menu_from_pdf :: "unicode \<Rightarrow> pdf outcome \<Rightarrow> error + days \<times> pystr option" where
  "extract_menu_from_pdf U doc =
     (case doc of
        Raises \<Rightarrow> Inl PdfplumberError
      | Returns pdf \<Rightarrow>
          let result = with_body U (pages pdf)
          in case close pdf of
               Raises \<Rightarrow> Inl PdfplumberError
             | Returns _ \<Rightarrow> result)"

section \<open>find\_latest\_pdf.py: pick\_best\<close>

text \<open>\<open>(\d{1,2})_(\d{1,2})_(\d{2,4})-(\d{1,2})_(\d{1,2})_(\d{2,4})\<close>\<close>

definition name_pattern :: "item list" where
  "name_pattern =
     [digits 1 2, lit CHR ''_'', digits 1 2, lit CHR ''_'', digits 2 4, lit CHR ''-'',
      digits 1 2, lit CHR ''_'', digits 1 2, lit CHR ''_'', digits 2 4]"

text \<open>
  \<open>int(s)\<close> on a string of decimal digits. On any other string the model raises
  \<open>ValueError\<close>; the strings \<open>\d\<close> matched never are such.
\<close>

fun digits_value :: "unicode \<Rightarrow> pystr \<Rightarrow> nat \<Rightarrow> error + nat" where
  "digits_value U [] acc = Inr acc"
| "digits_value U (c # cs) acc =
     (case decimal U c of
        None \<Rightarrow> Inl ValueError
      | Some v \<Rightarrow> digits_value U cs (10 * acc + v))"

definition py_int :: "unicode \<Rightarrow> pystr \<Rightarrow> error + nat" where
  "py_int U s = (if s = [] then Inl ValueError else digits_value U s 0)"

type_synonym key = "nat \<times> nat \<times> nat \<times> nat \<times> nat \<times> nat"

text \<open>
  \<open>score\<close>, the sort key of a link. The six groups are the pieces of the digit
  items; unpacking anything but six groups would be a \<open>ValueError\<close>.
\<close>

definition score :: "unicode \<Rightarrow> pystr \<Rightarrow> error + key" where
  "score U u =
     (case search U name_pattern u of
        None \<Rightarrow> Inr (0, 0, 0, 0, 0, 0)
      | Some [d1, _, m1, _, y1, _, d2, _, m2, _, y2] \<Rightarrow>
          and_then (py_int U y2) (\<lambda>y2.
          let y2 = (if y2 < 100 then y2 + 2000 else y2) in
          and_then (py_int U m2) (\<lambda>m2.
          and_then (py_int U d2) (\<lambda>d2.
          and_then (py_int U y1) (\<lambda>y1.
          let y1 = (if y1 > 100 then y1 else 2000 + y1) in
          and_then (py_int U m1) (\<lambda>m1.
          and_then (py_int U d1) (\<lambda>d1.
          Inr (y2, m2, d2, y1, m1, d1)))))))
      | Some _ \<Rightarrow> Inl ValueError)"

text \<open>
  \<open>sorted(set(urls), key=score)[-1]\<close>. The order in which a set of strings is
  iterated is not fixed by the language, so it is a parameter: \<open>set_order urls\<close> is
  \<open>list(set(urls))\<close>. \<open>sorted\<close> computes the key of every element, then sorts
  stably; the last element of an empty list is an \<open>IndexError\<close>.
\<close>

fun keyed :: "unicode \<Rightarrow> pystr list \<Rightarrow> error + (key \<times> pystr) list" where
  "keyed U [] = Inr []"
| "keyed U (u # us) =
     and_then (score U u) (\<lambda>k. and_then (keyed U us) (\<lambda>kus. Inr ((k, u) # kus)))"

definition pick_best :: "unicode \<Rightarrow> (pystr list \<Rightarrow> pystr list) \<Rightarrow> pystr list \<Rightarrow> error + pystr" where
  "pick_best U set_order urls =
     and_then (keyed U (set_order urls)) (\<lambda>kus.
       case sort_key fst kus of
         [] \<Rightarrow> Inl IndexError
       | x # xs \<Rightarrow> Inr (snd (last (x # xs))))"

section \<open>Notions of the statements\<close>

text \<open>A document with the pages \<open>ps\<close> that opens and closes without an exception.\<close>

definition document :: "page list \<Rightarrow> pdf outcome" where
  "document ps = Returns \<lparr>pages = ps, close = Returns ()\<rparr>"

text \<open>
  The calls outside the \<open>try\<close> blocks return: the document opens and closes, and
  the text of its first page, when it has a page, can be read.
\<close>

definition readable :: "pdf outcome \<Rightarrow> bool" where
  "readable doc \<longleftrightarrow>
     (case doc of
        Raises \<Rightarrow> False
      | Returns pdf \<Rightarrow>
          close pdf = Returns () \<and>
          (case pages pdf of [] \<Rightarrow> True | pg # _ \<Rightarrow> extract_text pg \<noteq> Raises))"

text \<open>The keys of the day dictionary, as \<open>{d: [] for d in DAYS_EN}\<close> creates them.\<close>

definition keys_ok :: "days \<Rightarrow> bool" where
  "keys_ok days \<longleftrightarrow> map fst days = DAYS_EN"

text \<open>
  The weekday labels found among the cells of a row: the keys of \<open>DAY_MAP\<close> equal to
  the upper-cased normalisation of some cell.
\<close>

definition labels_found :: "unicode \<Rightarrow> row \<Rightarrow> pystr set" where
  "labels_found U row = {k \<in> set day_labels. \<exists>c \<in> set row. upper U (norm c) = k}"

text \<open>
  The weekdays that label matching resolves in a header row: those \<open>DAY_MAP\<close> gives
  for the upper-cased normalisation of some cell.
\<close>

definition resolved :: "unicode \<Rightarrow> row \<Rightarrow> weekday set" where
  "resolved U hdr = {d. \<exists>c \<in> set hdr. map_of DAY_MAP (upper U (norm c)) = Some d}"

text \<open>The body of the loop that builds \<open>col_idx_for_day\<close> from the labels.\<close>

abbreviation label_step :: "nat \<times> pystr \<Rightarrow> colmap \<Rightarrow> colmap" where
  "label_step \<equiv> (\<lambda>(j, cell) m. case map_of DAY_MAP cell of
                           None \<Rightarrow> m
                         | Some d \<Rightarrow> AList.update d j m)"

text \<open>The sort key of a link, once \<open>score\<close> is known to return one.\<close>

definition key_of :: "unicode \<Rightarrow> pystr \<Rightarrow> key" where
  "key_of U u = (case score U u of Inr k \<Rightarrow> k | Inl _ \<Rightarrow> (0, 0, 0, 0, 0, 0))"

text \<open>
  What \<open>_norm\<close> establishes: no non-breaking space, tab or carriage return, no two
  adjacent spaces, no three adjacent newlines, no whitespace at either end.
\<close>

definition no_double_sp :: "pystr \<Rightarrow> bool" where
  "no_double_sp s \<longleftrightarrow> \<not> sublist [SP, SP] s"

definition no_triple_nl :: "pystr \<Rightarrow> bool" where
  "no_triple_nl s \<longleftrightarrow> \<not> sublist [NL, NL, NL] s"

definition stripped :: "pystr \<Rightarrow> bool" where
  "stripped s \<longleftrightarrow> s = [] \<or> (\<not> is_space (hd s) \<and> \<not> is_space (last s))"

definition tidy :: "pystr \<Rightarrow> bool" where
  "tidy s \<longleftrightarrow>
     NBSP \<notin> set s \<and> TAB \<notin> set s \<and> CR \<notin> set s \<and> no_double_sp s \<and> no_triple_nl s \<and>
     stripped s"

text \<open>
  What holds of the day dictionary throughout the loops: no list has a dish twice,
  and every dish is non-empty normalised text. \<open>not_day_token\<close> is the test of the
  final pass.
\<close>

definition clean :: "days \<Rightarrow> bool" where
  "clean days \<longleftrightarrow> (\<forall>(d, xs) \<in> set days. distinct xs \<and> (\<forall>x \<in> set xs. tidy x \<and> x \<noteq> []))"

definition not_day_token :: "unicode \<Rightarrow> pystr \<Rightarrow> bool" where
  "not_day_token U x \<longleftrightarrow> upper U (norm (Some x)) \<notin> set day_labels"

text \<open>
  What holds of every line \<open>_cell_to_items\<close> keeps of a cell without bullet, and of
  the lines joined: normalised text in one line.
\<close>

definition line_ok :: "pystr \<Rightarrow> bool" where
  "line_ok l \<longleftrightarrow>
     l \<noteq> [] \<and> stripped l \<and> no_double_sp l \<and>
     NBSP \<notin> set l \<and> TAB \<notin> set l \<and> CR \<notin> set l \<and> NL \<notin> set l \<and> BULLET \<notin> set l"

section \<open>Example inputs\<close>

text \<open>
  A page without tables whose text cannot be read, and a page without usable
  table that carries a date range: the first configuration finds one table without
  rows, the second nothing, the third raises, the generic pass finds a table without
  rows.
\<close>

definition unreadable_page :: page where
  "unreadable_page =
     \<lparr>extract_text = Raises, extract_tables = (\<lambda>_. Returns (Some [])),
      extract_table = Returns None\<rparr>"

definition dated_page :: page where
  "dated_page =
     \<lparr>extract_text = Returns (Some (ascii ''Menu 8.12.2025 / 12.12.2025'')),
      extract_tables =
        (\<lambda>s. if vertical_strategy s = Text then Raises
             else if horizontal_strategy s = Text then Returns None
             else Returns (Some [ [] ])),
      extract_table = Returns (Some [])\<rparr>"

definition T26 :: table where
  "T26 = replicate 26 [Some (ascii ''a'')]"

definition T1 :: table where
  "T1 = [[Some (ascii ''a'')]]"

definition V1 :: table where
  "V1 = [[Some (ascii ''PAZARTESI''), Some (ascii ''SALI''), Some (ascii ''CUMA''),
          Some (ascii ''x''), Some (ascii ''y'')]]"

text \<open>
  A table whose second row is the header; a header row with four weekday labels
  behind a column of its own, the table and the page around it; the same header
  with all five labels.
\<close>

definition header_table :: table where
  "header_table =
     [[Some (ascii ''Menu'')],
      [Some (ascii ''pazartesi''), Some (ascii ''Sali''), None, Some (ascii '' CUMA '')]]"

definition hdr4 :: row where
  "hdr4 = [Some [], Some (ascii ''PAZARTESI''), Some (ascii ''SALI''), Some (ascii ''CARSAMBA''),
           Some (ascii ''PERSEMBE'')]"

definition table4 :: table where
  "table4 = [hdr4, [Some (ascii ''Corba''), Some (ascii ''Pilav''), Some (ascii ''Tavuk''),
                    Some (ascii ''Makarna''), Some (ascii ''Balik'')]]"

definition page4 :: page where
  "page4 = \<lparr>extract_text = Returns None, extract_tables = (\<lambda>_. Returns (Some [table4])),
            extract_table = Returns None\<rparr>"

definition hdr5 :: row where
  "hdr5 = [Some [], Some (ascii ''PAZARTESI''), Some (ascii ''SALI''), Some (ascii ''CARSAMBA''),
           Some (ascii ''PERSEMBE''), Some (ascii ''CUMA'')]"

text \<open>Links with the date ranges of the example, and one with four-digit years.\<close>

definition link_a :: pystr where "link_a = ascii ''1_1_24-5_1_24''"
definition link_b :: pystr where "link_b = ascii ''8_1_24-12_1_24''"
definition link_c :: pystr where "link_c = ascii ''8_1_2024-12_1_2024''"

text \<open>Ranges of the year 2024 that start in the years 100 and 101, and a range within the year 100.\<close>

definition link_100 :: pystr where "link_100 = ascii ''1_1_100-1_1_2024''"
definition link_101 :: pystr where "link_101 = ascii ''1_1_101-1_1_2024''"
definition link_100_100 :: pystr where "link_100_100 = ascii ''1_1_100-5_1_100''"




text \<open>
  A two-line cell with a bullet after a blank, and a two-line cell whose first line
  has a slash.
\<close>

definition bullet_cell :: pystr where
  "bullet_cell = ascii ''a '' @ BULLET # ascii ''b'' @ NL # ascii ''c''"

definition slash_cell :: pystr where
  "slash_cell = ascii ''Soup /'' @ NL # ascii ''  rice''"

section \<open>Cell Normalizer: cells without dish text\<close>

lemmas char_defs = SP_def TAB_def NL_def CR_def NBSP_def BULLET_def SLASH_def

lemma strip_Nil: "strip [] = []"
  by (simp add: strip_def)

lemma dropWhile_all: "\<forall>c \<in> set s. P c \<Longrightarrow> dropWhile P s = []"
  by (induction s) auto

lemma strip_all_space: "\<forall>c \<in> set s. is_space c \<Longrightarrow> strip s = []"
  by (simp add: strip_def dropWhile_all)

lemma norm_all_space:
  assumes "\<forall>c \<in> set s. is_space c"
  shows "norm (Some s) = []"
proof -
  have "\<forall>c \<in> set (replace NBSP SP s). is_space c"
    using assms by (auto simp: replace_def is_space_def char_defs)
  then have "strip (replace NBSP SP s) = []"
    by (rule strip_all_space)
  then show ?thesis
    by (simp add: norm_def or_empty_def strip_Nil replace_def)
qed

lemma cell_to_items_blank:
  "\<forall>c \<in> set s. is_space c \<Longrightarrow> cell_to_items (Some s) = []"
  by (simp add: cell_to_items_def norm_all_space)

lemma norm_None: "norm None = []"
  by (simp add: norm_def or_empty_def strip_Nil replace_def)

lemma cell_to_items_None: "cell_to_items None = []"
  by (simp add: cell_to_items_def norm_None)

text \<open>
  C3. A cell that holds nothing but a bullet glyph has no non-blank line left once
  the glyph is replaced, yet \<open>_cell_to_items\<close> returns a list with one empty string,
  not the empty list: the emptiness test runs before the glyph is replaced, and the
  one-line branch returns the cell whatever is left of it.
\<close>

theorem cell_to_items_bullet_only:
  "cell_lines (strip (replace BULLET SP (norm (Some [BULLET])))) = [] \<and>
   cell_to_items (Some [BULLET]) = [[]]"
  by (simp add: cell_to_items_def cell_lines_def norm_def or_empty_def strip_def replace_def
      is_space_def is_blank_def char_defs)

section \<open>Table Scorer\<close>

lemma fold_count:
  "fold (\<lambda>d (sc::int). if P d then sc + 5 else sc) ds sc =
   sc + 5 * int (length (filter P ds))"
  by (induction ds arbitrary: sc) auto

lemma score_row_hits: "score_row U r sc = sc + 5 * int (scorer_row_hits U r)"
  by (simp add: score_row_def scorer_row_hits_def fold_count)

lemma fold_score_row:
  "fold (score_row U) rows sc = sc + 5 * int (sum_list (map (scorer_row_hits U) rows))"
  by (induction rows arbitrary: sc) (auto simp: score_row_hits)

lemma score_table_eq:
  "table \<noteq> [] \<Longrightarrow>
   score_table U table =
     (if max_cols table \<ge> 5 then 10 else 0) + 5 * int (scorer_hits U table) +
     int (min (length table) 30)"
  by (simp add: score_table_def scorer_hits_def fold_score_row)

lemma scorer_hits_Nil: "scorer_hits U [] = 0"
  by (simp add: scorer_hits_def)

lemmas str_eval = ascii_def char_defs strip_def replace_def is_space_def is_blank_def
  norm_def or_empty_def

lemma scorer_hits_replicate: "scorer_hits U (replicate n r) = min 6 n * scorer_row_hits U r"
  by (simp add: scorer_hits_def sum_list_replicate)

lemma max_cols_replicate: "max_cols (replicate (Suc n) [c]) = 1"
proof -
  have "fold max (replicate n (Suc 0)) (Suc 0) = Suc 0" by (induction n) auto
  then show ?thesis by (simp add: max_cols_def max_default_def)
qed

lemma scorer_row_hits_a: "scorer_row_hits basic_latin [Some (ascii ''a'')] = 0"
  by (simp add: scorer_row_hits_def truthy_def day_labels_def DAY_MAP_def
      basic_latin_def ascii_upper_def str_eval)

lemma T26_rows: "T26 \<noteq> []" "length T26 = 26"
  by (simp_all add: T26_def)

lemma T26_cols: "max_cols T26 = 1"
proof -
  have e: "T26 = replicate (Suc 25) [Some (ascii ''a'')]" by (simp add: T26_def)
  show ?thesis by (subst e) (rule max_cols_replicate)
qed

lemma T26_hits: "scorer_hits basic_latin T26 = 0"
  by (simp add: T26_def scorer_hits_replicate scorer_row_hits_a)

lemmas T26_facts = T26_rows T26_cols T26_hits

lemma V1_facts: "V1 \<noteq> []" "length V1 = 1" "max_cols V1 = 5" "scorer_hits basic_latin V1 = 3"
  by (simp_all add: V1_def max_cols_def max_default_def scorer_hits_def scorer_row_hits_def
      truthy_def day_labels_def DAY_MAP_def basic_latin_def ascii_upper_def str_eval)

text \<open>
  C2, as stated, fails: a table of 26 one-cell rows without labels scores 26, and so
  does a table of one five-cell row with three weekday labels (10 + 15 + 1).
\<close>

theorem score_table_not_always_below:
  "T26 \<noteq> [] \<and> max_cols T26 < 5 \<and> scorer_hits basic_latin T26 = 0 \<and>
   max_cols V1 \<ge> 5 \<and> scorer_hits basic_latin V1 \<ge> 3 \<and>
   \<not> score_table basic_latin T26 < score_table basic_latin V1"
  by (simp add: score_table_eq T26_facts V1_facts)

text \<open>
  C2, amended. A non-empty table \<open>T\<close> narrower than five columns and without label
  hits scores exactly \<open>min (rows, 30)\<close>. A table \<open>V\<close> with at least five columns and
  at least three hits scores \<open>10 + 5 * hits + min (rows, 30)\<close>, which is at least 26.
  So \<open>T\<close> scores below \<open>V\<close> exactly when
  \<open>min (rows T, 30) < 10 + 5 * hits V + min (rows V, 30)\<close>; in particular whenever
  \<open>T\<close> has at most 25 rows, or no more rows than \<open>V\<close>, or \<open>V\<close> has four hits or more.
\<close>

theorem score_table_narrow_unlabelled:
  assumes "T \<noteq> []" and "max_cols T < 5" and "scorer_hits U T = 0"
    and "max_cols V \<ge> 5" and "scorer_hits U V \<ge> 3"
  shows "score_table U T = int (min (length T) 30) \<and>
         score_table U V = 10 + 5 * int (scorer_hits U V) + int (min (length V) 30) \<and>
         (score_table U T < score_table U V \<longleftrightarrow>
            min (length T) 30 < 10 + 5 * scorer_hits U V + min (length V) 30) \<and>
         (length T \<le> 25 \<or> length T \<le> length V \<or> scorer_hits U V \<ge> 4 \<longrightarrow>
            score_table U T < score_table U V)"
proof -
  have V: "V \<noteq> []" using assms(5) by (auto simp: scorer_hits_Nil)
  have t: "score_table U T = int (min (length T) 30)"
    using assms(1-3) by (simp add: score_table_eq)
  have v: "score_table U V = 10 + 5 * int (scorer_hits U V) + int (min (length V) 30)"
    using V assms(4) by (simp add: score_table_eq)
  have lv: "length V \<ge> 1" using V by (cases V) auto
  show ?thesis using t v assms(5) lv by (auto simp: min_def)
qed

lemma T1_facts: "T1 \<noteq> []" "length T1 = 1" "max_cols T1 = 1" "scorer_hits basic_latin T1 = 0"
  by (simp_all add: T1_def max_cols_def max_default_def scorer_hits_def scorer_row_hits_a)

theorem score_table_narrow_unlabelled_witness:
  "T1 \<noteq> [] \<and> max_cols T1 < 5 \<and> scorer_hits basic_latin T1 = 0 \<and>
   max_cols V1 \<ge> 5 \<and> scorer_hits basic_latin V1 \<ge> 3 \<and>
   score_table basic_latin T1 = 1 \<and> score_table basic_latin V1 = 26 \<and>
   score_table basic_latin T1 < score_table basic_latin V1"
  using score_table_narrow_unlabelled [of T1 basic_latin V1]
  by (simp add: T1_facts V1_facts)

section \<open>Errors, loops and the day keys\<close>

lemma and_then_Inr [simp]: "and_then (Inr x) f = f x"
  by (simp add: and_then_def)

lemma and_then_Inl [simp]: "and_then (Inl e) f = Inl e"
  by (simp add: and_then_def)

lemma for_each_invariant:
  assumes step: "\<And>x s. x \<in> set xs \<Longrightarrow> I s \<Longrightarrow> \<exists>s'. body x s = Inr s' \<and> I s'"
    and init: "I s"
  shows "\<exists>s'. for_each xs body s = Inr s' \<and> I s'"
  using assms
proof (induction xs arbitrary: s)
  case Nil
  then show ?case by simp
next
  case (Cons x xs)
  from Cons.prems obtain s1 where s1: "body x s = Inr s1" "I s1"
    by (meson list.set_intros(1))
  have "\<exists>s'. for_each xs body s1 = Inr s' \<and> I s'"
    by (rule Cons.IH) (auto intro: Cons.prems(1) s1)
  then show ?case using s1 by simp
qed

lemma weekday_in_DAYS_EN: "d \<in> set DAYS_EN"
  by (cases d) (simp_all add: DAYS_EN_def)

lemma keys_ok_lookup: "keys_ok days \<Longrightarrow> \<exists>xs. map_of days d = Some xs"
proof -
  assume "keys_ok days"
  then have "d \<in> fst ` set days"
    using weekday_in_DAYS_EN [of d] by (metis keys_ok_def set_map)
  then show ?thesis by (cases "map_of days d") (auto simp: map_of_eq_None_iff)
qed

lemma keys_ok_update: "keys_ok days \<Longrightarrow> keys_ok (AList.update d xs days)"
  using weekday_in_DAYS_EN [of d] by (simp add: keys_ok_def update_keys)

lemma keys_ok_init: "keys_ok init_days"
  by (simp add: keys_ok_def init_days_def comp_def)

lemma add_dish_keys:
  assumes "keys_ok days"
  shows "\<exists>days'. add_dish U d dish0 days = Inr days' \<and> keys_ok days'"
proof -
  obtain xs where "map_of days d = Some xs"
    using keys_ok_lookup [OF assms] by blast
  then show ?thesis
    using assms by (auto simp: add_dish_def Let_def keys_ok_update)
qed

lemma read_day_keys:
  assumes "keys_ok days"
  shows "\<exists>days'. read_day U cols cells d days = Inr days' \<and> keys_ok days'"
proof (cases "map_of cols d")
  case None
  then show ?thesis using assms by (simp add: read_day_def)
next
  case (Some j)
  show ?thesis
  proof (cases "j \<ge> length cells")
    case True
    then show ?thesis using Some assms by (simp add: read_day_def)
  next
    case False
    have "\<exists>days'. for_each (cell_to_items (cells ! j)) (add_dish U d) days = Inr days' \<and>
            keys_ok days'"
      by (rule for_each_invariant) (auto intro: add_dish_keys assms)
    then show ?thesis using Some False by (simp add: read_day_def)
  qed
qed

lemma read_row_keys:
  assumes "keys_ok days"
  shows "\<exists>days'. read_row U cols row days = Inr days' \<and> keys_ok days'"
proof (cases "skip_row row")
  case True
  then show ?thesis using assms by (simp add: read_row_def)
next
  case False
  have "\<exists>days'. for_each DAYS_EN (read_day U cols (row_cells row)) days = Inr days' \<and>
          keys_ok days'"
    by (rule for_each_invariant) (auto intro: read_day_keys assms)
  then show ?thesis using False by (simp add: read_row_def)
qed

lemma drop_day_tokens_keys:
  assumes "keys_ok days"
  shows "\<exists>days'. drop_day_tokens U d days = Inr days' \<and> keys_ok days'"
proof -
  obtain xs where "map_of days d = Some xs"
    using keys_ok_lookup [OF assms] by blast
  then show ?thesis
    using assms by (auto simp: drop_day_tokens_def keys_ok_update)
qed

lemma first_header_bound:
  "first_header U (enumerate n rows) = Some i \<Longrightarrow> n \<le> i \<and> i < n + length rows"
proof (induction rows arbitrary: n)
  case Nil
  then show ?case by simp
next
  case (Cons r rows)
  show ?case
  proof (cases "header_hits U r \<ge> 3")
    case True
    then show ?thesis using Cons.prems by simp
  next
    case False
    then have "first_header U (enumerate (Suc n) rows) = Some i"
      using Cons.prems by simp
    from Cons.IH [OF this] show ?thesis by simp
  qed
qed

lemma header_row_idx_in_range: "bt \<noteq> [] \<Longrightarrow> header_row_idx U bt < length bt"
proof (cases "first_header U (enumerate 0 (take 10 bt))")
  case None
  assume "bt \<noteq> []"
  then show ?thesis using None by (simp add: header_row_idx_def)
next
  case (Some i)
  from first_header_bound [OF Some] have "i < length bt" by simp
  then show ?thesis using Some by (simp add: header_row_idx_def)
qed

lemma read_table_keys:
  assumes "keys_ok days" and "bt \<noteq> []"
  shows "\<exists>days'. read_table U bt days = Inr days' \<and> keys_ok days'"
proof -
  let ?i = "header_row_idx U bt"
  let ?cols = "col_idx_for_day U (bt ! ?i)"
  have i: "?i < length bt" using assms(2) by (rule header_row_idx_in_range)
  obtain d1 where d1: "for_each (drop (?i + 1) bt) (read_row U ?cols) days = Inr d1" "keys_ok d1"
    using for_each_invariant [where I = keys_ok and body = "read_row U ?cols" and s = days
        and xs = "drop (?i + 1) bt"] read_row_keys assms(1) by blast
  obtain d2 where d2: "for_each DAYS_EN (drop_day_tokens U) d1 = Inr d2" "keys_ok d2"
    using for_each_invariant [where I = keys_ok and body = "drop_day_tokens U" and s = d1
        and xs = DAYS_EN] drop_day_tokens_keys d1(2) by blast
  show ?thesis using i d1 d2 by (simp add: read_table_def Let_def)
qed

lemma read_page_keys:
  "\<exists>days date_range.
     read_page U pg tx = Inr (days, date_range) \<and>
     map fst days = [Monday, Tuesday, Wednesday, Thursday, Friday]"
proof -
  have init: "map fst init_days = [Monday, Tuesday, Wednesday, Thursday, Friday]"
    using keys_ok_init by (simp add: keys_ok_def DAYS_EN_def)
  show ?thesis
  proof (cases "fallback pg (fst (select_best U pg))")
    case None
    then show ?thesis using init by (simp add: read_page_def)
  next
    case (Some bt)
    show ?thesis
    proof (cases "bt = []")
      case True
      then show ?thesis using Some init by (simp add: read_page_def)
    next
      case False
      obtain days' where "read_table U bt init_days = Inr days'" "keys_ok days'"
        using read_table_keys [OF keys_ok_init False] by blast
      then show ?thesis
        using Some False by (simp add: read_page_def keys_ok_def DAYS_EN_def)
    qed
  qed
qed

lemma extract_Inr:
  "extract_menu_from_pdf U doc = Inr r \<longleftrightarrow>
     (\<exists>pdf. doc = Returns pdf \<and> close pdf = Returns () \<and> with_body U (pages pdf) = Inr r)"
  by (auto simp: extract_menu_from_pdf_def Let_def split: outcome.splits)

lemma with_body_Inr:
  "with_body U ps = Inr r \<longleftrightarrow>
     ps = [] \<and> r = (init_days, None) \<or>
     (\<exists>pg rest tx. ps = pg # rest \<and> extract_text pg = Returns tx \<and> read_page U pg tx = Inr r)"
  by (auto simp: with_body_def split: list.splits outcome.splits)

lemma extract_document: "extract_menu_from_pdf U (document ps) = with_body U ps"
  by (simp add: extract_menu_from_pdf_def document_def)

lemma with_body_Inl: "with_body U ps = Inl e \<Longrightarrow> e = PdfplumberError"
  using read_page_keys [of U]
  by (auto simp: with_body_def split: list.splits outcome.splits) (metis sum.distinct(1))

lemma extract_Inl: "extract_menu_from_pdf U doc = Inl e \<Longrightarrow> e = PdfplumberError"
  by (auto simp: extract_menu_from_pdf_def Let_def dest: with_body_Inl split: outcome.splits)

lemma extract_keys:
  assumes "extract_menu_from_pdf U doc = Inr (days, date_range)"
  shows "map fst days = [Monday, Tuesday, Wednesday, Thursday, Friday]"
proof -
  from assms obtain pdf :: pdf where w: "with_body U (pages pdf) = Inr (days, date_range)"
    by (auto simp: extract_Inr)
  then consider "days = init_days"
    | pg tx where "read_page U pg tx = Inr (days, date_range)"
    by (auto simp: with_body_Inr)
  then show ?thesis
  proof cases
    case 1
    then show ?thesis using keys_ok_init by (simp add: keys_ok_def DAYS_EN_def)
  next
    case 2
    then show ?thesis using read_page_keys [of U pg tx] by auto
  qed
qed

lemma extract_readable:
  "(\<exists>days date_range. extract_menu_from_pdf U doc = Inr (days, date_range)) \<longleftrightarrow> readable doc"
proof
  assume "\<exists>days date_range. extract_menu_from_pdf U doc = Inr (days, date_range)"
  then show "readable doc"
    by (auto simp: extract_Inr with_body_Inr readable_def)
next
  assume r: "readable doc"
  then obtain pdf where pdf: "doc = Returns pdf" "close pdf = Returns ()"
    by (cases doc) (auto simp: readable_def)
  show "\<exists>days date_range. extract_menu_from_pdf U doc = Inr (days, date_range)"
  proof (cases "pages pdf")
    case Nil
    then show ?thesis using pdf by (simp add: extract_Inr with_body_Inr)
  next
    case (Cons pg rest)
    then obtain tx where tx: "extract_text pg = Returns tx"
      using r pdf by (cases "extract_text pg") (auto simp: readable_def)
    obtain days date_range where "read_page U pg tx = Inr (days, date_range)"
      using read_page_keys [of U pg tx] by blast
    then have "with_body U (pages pdf) = Inr (days, date_range)"
      using Cons tx by (simp add: with_body_Inr)
    then show ?thesis using pdf by (auto simp: extract_Inr)
  qed
qed

text \<open>
  C9. Whenever \<open>extract_menu_from_pdf\<close> returns a record, its day dictionary has
  exactly the keys Monday, Tuesday, Wednesday, Thursday, Friday, in this order: no
  loop of the function adds or removes a key, and no lookup of a day fails. It
  returns a record for every document that opens and closes and whose first page,
  when there is one, gives its text, and for no other; the only exception that
  leaves it is one of pdfplumber.
\<close>

theorem day_keys_fixed:
  "((\<exists>days date_range. extract_menu_from_pdf U doc = Inr (days, date_range)) \<longleftrightarrow> readable doc) \<and>
   (\<forall>e. extract_menu_from_pdf U doc = Inl e \<longrightarrow> e = PdfplumberError) \<and>
   (\<forall>days date_range.
      extract_menu_from_pdf U doc = Inr (days, date_range) \<longrightarrow>
      map fst days = [Monday, Tuesday, Wednesday, Thursday, Friday])"
  using extract_readable [of U doc] extract_Inl [of U doc] extract_keys [of U doc]
  by blast

section \<open>Documents without a usable table\<close>

lemma score_table_Nil: "score_table U [] = - 10"
  by (simp add: score_table_def)

lemma fold_consider_empty:
  "\<forall>t \<in> set ts. t = [] \<Longrightarrow> fold (consider_table U) ts (None, - 10) = (None, - 10)"
  by (induction ts) (auto simp: consider_table_def score_table_Nil)

lemma select_best_empty:
  assumes "\<forall>s \<in> set settings_variants. \<forall>t \<in> set (tables_for pg s). t = []"
  shows "select_best U pg = (None, - 10)"
proof -
  have "fold (\<lambda>settings. fold (consider_table U) (tables_for pg settings)) ss (None, - 10) =
        (None, - 10)"
    if "\<forall>s \<in> set ss. \<forall>t \<in> set (tables_for pg s). t = []" for ss
    using that by (induction ss) (auto simp: fold_consider_empty)
  then show ?thesis using assms by (simp add: select_best_def)
qed

lemma init_days_eq:
  "init_days = [(Monday, []), (Tuesday, []), (Wednesday, []), (Thursday, []), (Friday, [])]"
  by (simp add: init_days_def DAYS_EN_def)

lemma read_page_no_table:
  assumes "\<forall>s \<in> set settings_variants. \<forall>t \<in> set (tables_for pg s). t = []"
    and "extract_table pg = Raises \<or> extract_table pg = Returns None \<or>
         extract_table pg = Returns (Some [])"
  shows "read_page U pg tx =
    Inr ([(Monday, []), (Tuesday, []), (Wednesday, []), (Thursday, []), (Friday, [])],
         find_date_range U (norm (Some (or_empty tx))))"
proof -
  have sel: "fst (select_best U pg) = None"
    using select_best_empty [OF assms(1)] by simp
  have "fallback pg None = None"
    using assms(2) by (auto simp: fallback_def no_table_def)
  then show ?thesis
    using sel by (simp add: read_page_def init_days_eq)
qed

lemma match_digit_Nil: "match_items U ((Digit, Suc lo, hi) # its) [] = None"
  by (simp add: max_run_def split: option.splits)

lemma find_date_range_Nil: "find_date_range U [] = None"
  by (simp add: find_date_range_def date_pattern_def digits_def match_digit_Nil
      del: match_items.simps)

lemma unreadable_page_facts:
  "concat (map (tables_for unreadable_page) settings_variants) = []"
  "extract_table unreadable_page = Returns None"
  "extract_text unreadable_page = Raises"
  by (simp_all add: tables_for_def unreadable_page_def)

text \<open>
  C7, as stated, fails: \<open>page.extract_text()\<close> is called outside the \<open>try\<close> blocks.
  On a page from which no configuration and no generic pass yields a table, an
  exception of that call leaves \<open>extract_menu_from_pdf\<close>.
\<close>

theorem no_table_text_raises:
  "concat (map (tables_for unreadable_page) settings_variants) = [] \<and>
   extract_table unreadable_page = Returns None \<and>
   extract_menu_from_pdf basic_latin (document [unreadable_page]) = Inl PdfplumberError"
  by (simp add: unreadable_page_facts extract_document with_body_def)

text \<open>
  C7, amended. Let the document open and close without an exception. When it has no
  page, or when the text of its first page can be read and on that page every table
  of every detection configuration is empty (a configuration that raises or returns
  nothing gives no table) and the generic pass raises, returns \<open>None\<close> or returns an
  empty table, \<open>extract_menu_from_pdf\<close> returns normally: all five weekday lists
  are empty, and the date range is what the page text gives, \<open>None\<close> when there is
  no page.
\<close>

theorem no_table_returns_empty:
  assumes "doc = Returns pdf" and "close pdf = Returns ()"
    and "pages pdf = [] \<or>
      (\<exists>pg rest tx. pages pdf = pg # rest \<and> extract_text pg = Returns tx \<and>
         (\<forall>s \<in> set settings_variants. \<forall>t \<in> set (tables_for pg s). t = []) \<and>
         (extract_table pg = Raises \<or> extract_table pg = Returns None \<or>
          extract_table pg = Returns (Some [])))"
  shows "extract_menu_from_pdf U doc =
    Inr ([(Monday, []), (Tuesday, []), (Wednesday, []), (Thursday, []), (Friday, [])],
         case pages pdf of
           [] \<Rightarrow> None
         | pg # _ \<Rightarrow>
             (case extract_text pg of
                Raises \<Rightarrow> None
              | Returns tx \<Rightarrow> find_date_range U (norm (Some (or_empty tx)))))"
  using assms(3)
proof
  assume "pages pdf = []"
  then show ?thesis
    using assms(1,2) by (simp add: extract_Inr with_body_Inr init_days_eq)
next
  assume "\<exists>pg rest tx. pages pdf = pg # rest \<and> extract_text pg = Returns tx \<and>
         (\<forall>s \<in> set settings_variants. \<forall>t \<in> set (tables_for pg s). t = []) \<and>
         (extract_table pg = Raises \<or> extract_table pg = Returns None \<or>
          extract_table pg = Returns (Some []))"
  then obtain pg rest tx where pg: "pages pdf = pg # rest" "extract_text pg = Returns tx"
    and none: "\<forall>s \<in> set settings_variants. \<forall>t \<in> set (tables_for pg s). t = []"
    and fb: "extract_table pg = Raises \<or> extract_table pg = Returns None \<or>
        extract_table pg = Returns (Some [])"
    by blast
  show ?thesis
    using assms(1,2) pg read_page_no_table [OF none fb, of U tx]
    by (simp add: extract_Inr with_body_Inr)
qed

lemma dated_page_facts:
  "extract_text dated_page = Returns (Some (ascii ''Menu 8.12.2025 / 12.12.2025''))"
  "concat (map (tables_for dated_page) settings_variants) = [ [] ]"
  "extract_table dated_page = Returns (Some [])"
  by (simp_all add: tables_for_def dated_page_def settings_variants_def)

lemma dated_page_range:
  "find_date_range basic_latin
     (norm (Some (or_empty (Some (ascii ''Menu 8.12.2025 / 12.12.2025''))))) =
   Some (ascii ''8.12.2025/12.12.2025'')"
  by code_simp

theorem no_table_returns_empty_witness:
  "extract_menu_from_pdf basic_latin (document []) =
     Inr ([(Monday, []), (Tuesday, []), (Wednesday, []), (Thursday, []), (Friday, [])], None) \<and>
   extract_text dated_page = Returns (Some (ascii ''Menu 8.12.2025 / 12.12.2025'')) \<and>
   concat (map (tables_for dated_page) settings_variants) = [ [] ] \<and>
   extract_table dated_page = Returns (Some []) \<and>
   extract_menu_from_pdf basic_latin (document [dated_page]) =
     Inr ([(Monday, []), (Tuesday, []), (Wednesday, []), (Thursday, []), (Friday, [])],
          Some (ascii ''8.12.2025/12.12.2025''))"
proof -
  have t: "\<forall>s \<in> set settings_variants. \<forall>t \<in> set (tables_for dated_page s). t = []"
    by (simp add: tables_for_def dated_page_def settings_variants_def)
  have a: "document [] = Returns \<lparr>pages = [], close = Returns ()\<rparr>"
    and b: "document [dated_page] = Returns \<lparr>pages = [dated_page], close = Returns ()\<rparr>"
    by (simp_all add: document_def)
  have "extract_menu_from_pdf basic_latin (document []) =
     Inr ([(Monday, []), (Tuesday, []), (Wednesday, []), (Thursday, []), (Friday, [])], None)"
    using no_table_returns_empty [OF a, of basic_latin] by simp
  moreover have "extract_menu_from_pdf basic_latin (document [dated_page]) =
     Inr ([(Monday, []), (Tuesday, []), (Wednesday, []), (Thursday, []), (Friday, [])],
          Some (ascii ''8.12.2025/12.12.2025''))"
    using no_table_returns_empty [OF b, of basic_latin] t dated_page_facts(1,3)
    by (simp add: dated_page_range)
  ultimately show ?thesis using dated_page_facts by simp
qed

section \<open>Header Resolver: the header row\<close>

lemma distinct_day_labels: "distinct day_labels"
  by (simp add: day_labels_def DAY_MAP_def ascii_def)

lemma header_hits_card: "header_hits U row = card (labels_found U row)"
proof -
  let ?f = "filter (\<lambda>k. k \<in> set (map (\<lambda>c. upper U (norm c)) row)) day_labels"
  have "labels_found U row = set ?f"
    by (auto simp: labels_found_def)
  moreover have "distinct ?f"
    using distinct_day_labels by simp
  ultimately have "card (labels_found U row) = length ?f"
    by (simp only: distinct_card)
  then show ?thesis
    by (simp add: header_hits_def)
qed

lemma first_header_None:
  "first_header U (enumerate n rows) = None \<longleftrightarrow> (\<forall>r \<in> set rows. header_hits U r < 3)"
  by (induction rows arbitrary: n) auto

lemma first_header_Some:
  "first_header U (enumerate n rows) = Some i \<Longrightarrow>
   n \<le> i \<and> i - n < length rows \<and> header_hits U (rows ! (i - n)) \<ge> 3 \<and>
   (\<forall>j < i - n. header_hits U (rows ! j) < 3)"
proof (induction rows arbitrary: n)
  case Nil
  then show ?case by simp
next
  case (Cons r rows)
  show ?case
  proof (cases "header_hits U r \<ge> 3")
    case True
    then show ?thesis using Cons.prems by simp
  next
    case False
    then have "first_header U (enumerate (Suc n) rows) = Some i"
      using Cons.prems by simp
    from Cons.IH [OF this]
    have ih: "Suc n \<le> i" "i - Suc n < length rows" "header_hits U (rows ! (i - Suc n)) \<ge> 3"
      "\<forall>j < i - Suc n. header_hits U (rows ! j) < 3"
      by auto
    have idx: "i - n = Suc (i - Suc n)" using ih(1) by simp
    show ?thesis
    proof (intro conjI allI impI)
      show "n \<le> i" using ih(1) by simp
      show "i - n < length (r # rows)" using ih(2) idx by simp
      show "3 \<le> header_hits U ((r # rows) ! (i - n))" using ih(3) idx by simp
      fix j assume "j < i - n"
      then show "header_hits U ((r # rows) ! j) < 3"
        using False ih(4) idx by (cases j) auto
    qed
  qed
qed

text \<open>
  C6. Among the first ten rows of the selected table, the header row is the first
  one in which at least three distinct weekday labels are found among the cells
  (upper-cased after normalisation); when no such row exists, it is row 0.
\<close>

theorem header_row_first:
  "(let i = header_row_idx U t; n = min 10 (length t) in
    if \<exists>j < n. card (labels_found U (t ! j)) \<ge> 3
    then i < n \<and> card (labels_found U (t ! i)) \<ge> 3 \<and>
         (\<forall>j < i. card (labels_found U (t ! j)) < 3)
    else i = 0)"
proof (cases "first_header U (enumerate 0 (take 10 t))")
  case None
  then have "\<forall>r \<in> set (take 10 t). header_hits U r < 3"
    by (simp add: first_header_None)
  then have "\<forall>j < min 10 (length t). header_hits U (t ! j) < 3"
    by (metis length_take min.commute nth_mem nth_take min_less_iff_conj)
  then have "\<not> (\<exists>j < min 10 (length t). card (labels_found U (t ! j)) \<ge> 3)"
    by (auto simp: header_hits_card)
  then show ?thesis using None by (auto simp: header_row_idx_def Let_def)
next
  case (Some i)
  from first_header_Some [OF Some]
  have i: "i < min 10 (length t)" "header_hits U (take 10 t ! i) \<ge> 3"
    "\<forall>j < i. header_hits U (take 10 t ! j) < 3"
    by auto
  have a: "card (labels_found U (t ! i)) \<ge> 3"
    using i(1,2) by (simp add: header_hits_card)
  have b: "\<forall>j < i. card (labels_found U (t ! j)) < 3"
    using i(1,3) by (simp add: header_hits_card)
  have "header_row_idx U t = i" using Some by (simp add: header_row_idx_def)
  then show ?thesis using i(1) a b by (auto simp: Let_def)
qed

lemma header_table_hits:
  "header_hits basic_latin (header_table ! 0) = 0"
  "header_hits basic_latin (header_table ! 1) = 3"
  by (simp_all add: header_table_def header_hits_def day_labels_def DAY_MAP_def basic_latin_def
      ascii_upper_def str_eval)

theorem header_row_first_witness:
  "(\<exists>j < min 10 (length header_table). card (labels_found basic_latin (header_table ! j)) \<ge> 3) \<and>
   header_row_idx basic_latin header_table = 1 \<and>
   card (labels_found basic_latin (header_table ! 0)) < 3 \<and>
   card (labels_found basic_latin (header_table ! 1)) \<ge> 3 \<and>
   \<not> (\<exists>j < min 10 (length T1). card (labels_found basic_latin (T1 ! j)) \<ge> 3) \<and>
   header_row_idx basic_latin T1 = 0"
proof -
  have h0: "card (labels_found basic_latin (header_table ! 0)) = 0"
    and h1: "card (labels_found basic_latin (header_table ! 1)) = 3"
    using header_table_hits by (simp_all only: header_hits_card)
  have len: "length header_table = 2" by (simp add: header_table_def)
  have ex: "\<exists>j < min 10 (length header_table).
              card (labels_found basic_latin (header_table ! j)) \<ge> 3"
    using h1 by (intro exI [of _ 1]) (simp add: len)
  have i: "header_row_idx basic_latin header_table < min 10 (length header_table) \<and>
        card (labels_found basic_latin (header_table ! header_row_idx basic_latin header_table)) \<ge> 3"
    using header_row_first [of basic_latin header_table] ex
    by (auto simp: Let_def split: if_splits)
  have "header_row_idx basic_latin header_table \<noteq> 0"
    using i h0 by (metis not_numeral_le_zero)
  then have idx: "header_row_idx basic_latin header_table = 1"
    using i len by simp
  have t0: "header_hits basic_latin (T1 ! 0) = 0"
    by (simp add: T1_def header_hits_def day_labels_def DAY_MAP_def basic_latin_def
        ascii_upper_def str_eval)
  then have "card (labels_found basic_latin (T1 ! 0)) = 0"
    by (simp only: header_hits_card)
  then have nex: "\<not> (\<exists>j < min 10 (length T1). card (labels_found basic_latin (T1 ! j)) \<ge> 3)"
    by (simp add: T1_def)
  have "header_row_idx basic_latin T1 = 0"
    using header_row_first [of basic_latin T1] nex
    by (auto simp: Let_def split: if_splits)
  then show ?thesis using ex idx h0 h1 nex by simp
qed

section \<open>Header Resolver: the columns of the weekdays\<close>

lemma fold_label_distinct:
  "distinct (map fst m) \<Longrightarrow> distinct (map fst (fold label_step (enumerate n xs) m))"
  by (induction xs arbitrary: n m) (auto simp: distinct_update split: option.splits)

lemma update_key_set: "fst ` set (AList.update k v al) = insert k (fst ` set al)"
  by (induction al) auto

lemma fold_label_dom:
  "fst ` set (fold label_step (enumerate n xs) m) =
   fst ` set m \<union> {d. \<exists>c \<in> set xs. map_of DAY_MAP c = Some d}"
proof (induction xs arbitrary: n m)
  case Nil
  then show ?case by simp
next
  case (Cons x xs)
  show ?case
  proof (cases "map_of DAY_MAP x")
    case None
    then show ?thesis using Cons.IH [of "Suc n" m] by auto
  next
    case (Some d)
    have "fst ` set (fold label_step (enumerate n (x # xs)) m) =
          fst ` set (fold label_step (enumerate (Suc n) xs) (AList.update d n m))"
      using Some by simp
    also have "\<dots> = insert d (fst ` set m) \<union> {d. \<exists>c \<in> set xs. map_of DAY_MAP c = Some d}"
      by (simp only: Cons.IH update_key_set)
    also have "\<dots> = fst ` set m \<union> {d. \<exists>c \<in> set (x # xs). map_of DAY_MAP c = Some d}"
      using Some by auto
    finally show ?thesis .
  qed
qed

lemma fold_label_lookup:
  "map_of (fold label_step (enumerate n xs) m) d = Some j \<Longrightarrow>
   map_of m d = Some j \<or> (n \<le> j \<and> j - n < length xs \<and> map_of DAY_MAP (xs ! (j - n)) = Some d)"
proof (induction xs arbitrary: n m)
  case Nil
  then show ?case by simp
next
  case (Cons x xs)
  show ?case
  proof (cases "map_of DAY_MAP x")
    case None
    then have "map_of (fold label_step (enumerate (Suc n) xs) m) d = Some j"
      using Cons.prems by simp
    from Cons.IH [OF this] show ?thesis
      by (auto simp: Suc_diff_Suc less_Suc_eq_le Suc_le_eq)
  next
    case (Some e)
    then have "map_of (fold label_step (enumerate (Suc n) xs) (AList.update e n m)) d = Some j"
      using Cons.prems by simp
    from Cons.IH [OF this]
    have "map_of (AList.update e n m) d = Some j \<or>
      (Suc n \<le> j \<and> j - Suc n < length xs \<and> map_of DAY_MAP (xs ! (j - Suc n)) = Some d)" .
    then show ?thesis
    proof
      assume "map_of (AList.update e n m) d = Some j"
      then show ?thesis using Some by (auto simp: update_conv' split: if_splits)
    next
      assume "Suc n \<le> j \<and> j - Suc n < length xs \<and> map_of DAY_MAP (xs ! (j - Suc n)) = Some d"
      then show ?thesis by (auto simp: Suc_diff_Suc less_Suc_eq_le Suc_le_eq)
    qed
  qed
qed

lemma label_columns_keys: "fst ` set (label_columns U hdr) = resolved U hdr"
  using fold_label_dom [of 0 "map (\<lambda>c. upper U (norm c)) hdr" "[]"]
  by (auto simp: label_columns_def resolved_def)

lemma label_columns_distinct: "distinct (map fst (label_columns U hdr))"
  using fold_label_distinct [of "[]" 0 "map (\<lambda>c. upper U (norm c)) hdr"]
  by (simp add: label_columns_def)

lemma label_columns_length: "length (label_columns U hdr) = card (resolved U hdr)"
proof -
  have "card (set (map fst (label_columns U hdr))) = length (map fst (label_columns U hdr))"
    using label_columns_distinct by (rule distinct_card)
  then show ?thesis using label_columns_keys [of U hdr] by simp
qed

lemma label_columns_lookup:
  assumes "map_of (label_columns U hdr) d = Some j"
  shows "j < length hdr \<and> map_of DAY_MAP (upper U (norm (hdr ! j))) = Some d"
  using fold_label_lookup [of 0 "map (\<lambda>c. upper U (norm c)) hdr" "[]" d j] assms
  by (auto simp: label_columns_def)

lemma positional_eq:
  "positional = [(Monday, 0), (Tuesday, 1), (Wednesday, 2), (Thursday, 3), (Friday, 4)]"
proof -
  have "[0..<5] = [0, Suc 0, 2, 3, 4]" by (simp add: upt_conv_Cons eval_nat_numeral)
  then show ?thesis by (simp add: positional_def DAYS_EN_def)
qed

lemma weekday_UNIV: "(UNIV :: weekday set) = {Monday, Tuesday, Wednesday, Thursday, Friday}"
proof -
  have "d \<in> {Monday, Tuesday, Wednesday, Thursday, Friday}" for d by (cases d) simp_all
  then show ?thesis by blast
qed

lemma card_weekday: "card (UNIV :: weekday set) = 5"
  by (simp add: weekday_UNIV)

lemma resolved_all: "\<not> card (resolved U hdr) < 5 \<Longrightarrow> resolved U hdr = UNIV"
proof -
  assume a: "\<not> card (resolved U hdr) < 5"
  have fin: "finite (UNIV :: weekday set)" by (simp add: weekday_UNIV)
  have "card (resolved U hdr) \<le> card (UNIV :: weekday set)"
    by (rule card_mono [OF fin]) simp
  then have "card (resolved U hdr) = card (UNIV :: weekday set)"
    using a by (simp add: card_weekday)
  then show ?thesis using fin by (metis card_subset_eq subset_UNIV)
qed

text \<open>
  C5. When label matching over the header row resolves fewer than all five
  weekdays, the column mapping is the positional one, column 0 to Monday up to
  column 4 to Friday, and nothing of the partial label mapping remains. Otherwise
  the mapping is the label mapping, and every column in it carries the label of its
  weekday. Either way all five weekdays have a column: a header row with only four
  recognisable weekday cells still gives five day keys.
\<close>

theorem col_idx_all_or_nothing:
  "(if card (resolved U hdr) < 5
    then col_idx_for_day U hdr =
           [(Monday, 0), (Tuesday, 1), (Wednesday, 2), (Thursday, 3), (Friday, 4)]
    else col_idx_for_day U hdr = label_columns U hdr \<and>
         (\<forall>d j. map_of (col_idx_for_day U hdr) d = Some j \<longrightarrow>
                j < length hdr \<and> map_of DAY_MAP (upper U (norm (hdr ! j))) = Some d)) \<and>
   fst ` set (col_idx_for_day U hdr) = {Monday, Tuesday, Wednesday, Thursday, Friday}"
proof (cases "card (resolved U hdr) < 5")
  case True
  then have "col_idx_for_day U hdr = positional"
    by (simp add: col_idx_for_day_def label_columns_length)
  then show ?thesis using True by (simp add: positional_eq)
next
  case False
  then have c: "col_idx_for_day U hdr = label_columns U hdr"
    by (simp add: col_idx_for_day_def label_columns_length)
  have "fst ` set (label_columns U hdr) = {Monday, Tuesday, Wednesday, Thursday, Friday}"
    using resolved_all [OF False] by (simp add: label_columns_keys weekday_UNIV)
  then show ?thesis using False c label_columns_lookup by auto
qed

lemmas tbl_eval = header_row_idx_def header_hits_def day_labels_def DAY_MAP_def
  col_idx_for_day_def label_columns_def positional_eq read_row_def skip_row_def row_cells_def
  read_day_def add_dish_def drop_day_tokens_def cell_to_items_def cell_lines_def startswith_def
  OGRENCI_def ASCIBASI_def basic_latin_def ascii_upper_def init_days_eq DAYS_EN_def
  read_table_def Let_def

lemma score_table_pos: "t \<noteq> [] \<Longrightarrow> score_table U t > - 10"
  by (simp add: score_table_eq)

lemma select_best_single:
  assumes "\<forall>s \<in> set settings_variants. tables_for pg s = [t]" and "t \<noteq> []"
  shows "fst (select_best U pg) = Some t"
proof -
  have a: "consider_table U t (None, - 10) = (Some t, score_table U t)"
    using score_table_pos [OF assms(2)] by (simp add: consider_table_def)
  have b: "consider_table U t (Some t, score_table U t) = (Some t, score_table U t)"
    by (simp add: consider_table_def)
  show ?thesis
    using assms(1) by (simp add: select_best_def settings_variants_def a b)
qed

lemma fallback_Some: "t \<noteq> [] \<Longrightarrow> fallback pg (Some t) = Some t"
  by (simp add: fallback_def no_table_def)

lemma read_table4:
  "read_table basic_latin table4 init_days =
     Inr [(Monday, [ascii ''Corba'']), (Tuesday, [ascii ''Pilav'']), (Wednesday, [ascii ''Tavuk'']),
          (Thursday, [ascii ''Makarna'']), (Friday, [ascii ''Balik''])]"
  by (simp add: table4_def hdr4_def tbl_eval str_eval)

lemma label_columns_hdr4:
  "label_columns basic_latin hdr4 = [(Monday, 1), (Tuesday, 2), (Wednesday, 3), (Thursday, 4)]"
  by (simp add: hdr4_def label_columns_def DAY_MAP_def basic_latin_def ascii_upper_def str_eval)

lemma label_columns_hdr5:
  "label_columns basic_latin hdr5 =
     [(Monday, 1), (Tuesday, 2), (Wednesday, 3), (Thursday, 4), (Friday, 5)]"
  by (simp add: hdr5_def label_columns_def DAY_MAP_def basic_latin_def ascii_upper_def str_eval)

lemma extract_page4:
  "extract_menu_from_pdf basic_latin (document [page4]) =
     Inr ([(Monday, [ascii ''Corba'']), (Tuesday, [ascii ''Pilav'']),
           (Wednesday, [ascii ''Tavuk'']), (Thursday, [ascii ''Makarna'']),
           (Friday, [ascii ''Balik''])], None)"
proof -
  have t: "table4 \<noteq> []" by (simp add: table4_def)
  have "\<forall>s \<in> set settings_variants. tables_for page4 s = [table4]"
    by (simp add: tables_for_def page4_def)
  then have b: "fst (select_best basic_latin page4) = Some table4"
    using t by (rule select_best_single)
  have x: "extract_text page4 = Returns None" by (simp add: page4_def)
  have n: "norm (Some (or_empty None)) = []"
    by (simp add: or_empty_def norm_all_space)
  show ?thesis
    by (simp add: extract_document with_body_def x read_page_def b fallback_Some t n
        find_date_range_Nil read_table4)
qed

theorem day_keys_fixed_witness:
  "readable (document [page4]) \<and>
   extract_menu_from_pdf basic_latin (document [page4]) =
     Inr ([(Monday, [ascii ''Corba'']), (Tuesday, [ascii ''Pilav'']),
           (Wednesday, [ascii ''Tavuk'']), (Thursday, [ascii ''Makarna'']),
           (Friday, [ascii ''Balik''])], None) \<and>
   map fst [(Monday, [ascii ''Corba'']), (Tuesday, [ascii ''Pilav'']),
            (Wednesday, [ascii ''Tavuk'']), (Thursday, [ascii ''Makarna'']),
            (Friday, [ascii ''Balik''])] =
     [Monday, Tuesday, Wednesday, Thursday, Friday] \<and>
   \<not> readable (document [unreadable_page]) \<and>
   extract_menu_from_pdf basic_latin (document [unreadable_page]) = Inl PdfplumberError"
proof -
  have r: "readable (document [page4])"
    by (simp add: readable_def document_def page4_def)
  have u: "\<not> readable (document [unreadable_page])"
    by (simp add: readable_def document_def unreadable_page_def)
  have "\<exists>e. extract_menu_from_pdf basic_latin (document [unreadable_page]) = Inl e"
    using day_keys_fixed [of basic_latin "document [unreadable_page]"] u
    by (cases "extract_menu_from_pdf basic_latin (document [unreadable_page])") auto
  then have "extract_menu_from_pdf basic_latin (document [unreadable_page]) = Inl PdfplumberError"
    using day_keys_fixed [of basic_latin "document [unreadable_page]"] by auto
  then show ?thesis
    using day_keys_fixed [of basic_latin "document [page4]"] r u extract_page4 by simp
qed

theorem col_idx_all_or_nothing_witness:
  "card (resolved basic_latin hdr4) = 4 \<and>
   col_idx_for_day basic_latin hdr4 =
     [(Monday, 0), (Tuesday, 1), (Wednesday, 2), (Thursday, 3), (Friday, 4)] \<and>
   fst ` set (col_idx_for_day basic_latin hdr4) =
     {Monday, Tuesday, Wednesday, Thursday, Friday} \<and>
   extract_menu_from_pdf basic_latin (document [page4]) =
     Inr ([(Monday, [ascii ''Corba'']), (Tuesday, [ascii ''Pilav'']),
           (Wednesday, [ascii ''Tavuk'']), (Thursday, [ascii ''Makarna'']),
           (Friday, [ascii ''Balik''])], None) \<and>
   card (resolved basic_latin hdr5) = 5 \<and>
   col_idx_for_day basic_latin hdr5 =
     [(Monday, 1), (Tuesday, 2), (Wednesday, 3), (Thursday, 4), (Friday, 5)]"
proof -
  have c4: "card (resolved basic_latin hdr4) = 4"
    using label_columns_length [of basic_latin hdr4] by (simp add: label_columns_hdr4)
  have c5: "card (resolved basic_latin hdr5) = 5"
    using label_columns_length [of basic_latin hdr5] by (simp add: label_columns_hdr5)
  show ?thesis
    using col_idx_all_or_nothing [of basic_latin hdr4] col_idx_all_or_nothing [of basic_latin hdr5]
    by (simp add: c4 c5 extract_page4 label_columns_hdr5)
qed

section \<open>Source selection\<close>

lemma first_some_Some: "first_some f xs = Some y \<Longrightarrow> \<exists>x \<in> set xs. f x = Some y"
  by (induction xs) (auto split: option.splits)

lemma take_takeWhile: "n \<le> length (takeWhile P s) \<Longrightarrow> take n s = take n (takeWhile P s)"
proof -
  assume n: "n \<le> length (takeWhile P s)"
  have "take n s = take n (takeWhile P s @ dropWhile P s)" by simp
  also have "\<dots> = take n (takeWhile P s)" using n by (simp del: takeWhile_dropWhile_id)
  finally show ?thesis .
qed

lemma max_run_le: "max_run U a hi s \<le> length (takeWhile (matches U a) s)"
  by (simp add: max_run_def Let_def split: option.splits)

lemma match_items_pieces:
  "match_items U its s = Some ps \<Longrightarrow>
   list_all2 (\<lambda>(a, lo, hi) p. lo \<le> length p \<and> (\<forall>c \<in> set p. matches U a c)) its ps"
proof (induction its arbitrary: s ps)
  case Nil
  then show ?case by simp
next
  case (Cons it its)
  obtain a lo hi where it: "it = (a, lo, hi)" by (cases it)
  from Cons.prems obtain n where n: "n \<in> set (rev [lo..<Suc (max_run U a hi s)])"
    and m: "(case match_items U its (drop n s) of None \<Rightarrow> None
             | Some qs \<Rightarrow> Some (take n s # qs)) = Some ps"
    unfolding it match_items.simps by (blast dest: first_some_Some)
  from m obtain qs where qs: "match_items U its (drop n s) = Some qs" and ps: "ps = take n s # qs"
    by (auto split: option.splits)
  have nle: "n \<le> length (takeWhile (matches U a) s)" and lo: "lo \<le> n"
    using n max_run_le [of U a hi s] by auto
  have tk: "take n s = take n (takeWhile (matches U a) s)"
    using nle by (rule take_takeWhile)
  have all: "\<forall>c \<in> set (take n s). matches U a c"
    unfolding tk by (meson in_set_takeD set_takeWhileD)
  have "n \<le> length s" using nle length_takeWhile_le [of "matches U a" s] by simp
  then have len: "lo \<le> length (take n s)" using lo by simp
  show ?case
    using Cons.IH [OF qs] all len by (simp add: it ps)
qed

lemma search_pieces:
  "search U its s = Some ps \<Longrightarrow>
   list_all2 (\<lambda>(a, lo, hi) p. lo \<le> length p \<and> (\<forall>c \<in> set p. matches U a c)) its ps"
  by (induction s) (auto dest: match_items_pieces split: option.splits)

lemma digits_value_total:
  "\<forall>c \<in> set p. decimal U c \<noteq> None \<Longrightarrow> \<exists>v. digits_value U p acc = Inr v"
  by (induction p arbitrary: acc) auto

lemma py_int_total:
  "1 \<le> length p \<Longrightarrow> \<forall>c \<in> set p. matches U Digit c \<Longrightarrow> \<exists>v. py_int U p = Inr v"
  using digits_value_total [of p U 0] by (auto simp: py_int_def matches_def)

lemma score_total: "\<exists>k. score U u = Inr k"
proof (cases "search U name_pattern u")
  case None
  then show ?thesis by (simp add: score_def)
next
  case (Some ps)
  from search_pieces [OF Some]
  obtain d1 s1 m1 s2 y1 s3 d2 s4 m2 s5 y2 where ps: "ps = [d1, s1, m1, s2, y1, s3, d2, s4, m2, s5, y2]"
    and dg: "1 \<le> length d1 \<and> (\<forall>c \<in> set d1. matches U Digit c)"
      "1 \<le> length m1 \<and> (\<forall>c \<in> set m1. matches U Digit c)"
      "1 \<le> length y1 \<and> (\<forall>c \<in> set y1. matches U Digit c)"
      "1 \<le> length d2 \<and> (\<forall>c \<in> set d2. matches U Digit c)"
      "1 \<le> length m2 \<and> (\<forall>c \<in> set m2. matches U Digit c)"
      "1 \<le> length y2 \<and> (\<forall>c \<in> set y2. matches U Digit c)"
    by (auto simp: name_pattern_def digits_def lit_def list_all2_Cons1)
  obtain vd1 vm1 vy1 vd2 vm2 vy2 where v:
    "py_int U d1 = Inr vd1" "py_int U m1 = Inr vm1" "py_int U y1 = Inr vy1"
    "py_int U d2 = Inr vd2" "py_int U m2 = Inr vm2" "py_int U y2 = Inr vy2"
    using dg py_int_total by meson
  show ?thesis
    by (simp add: score_def Some ps v Let_def)
qed

lemma score_key_of: "score U u = Inr (key_of U u)"
  using score_total [of U u] by (auto simp: key_of_def)

lemma keyed_eq: "keyed U us = Inr (map (\<lambda>u. (key_of U u, u)) us)"
  by (induction us) (simp_all add: score_key_of)

lemma sorted_last_max: "sorted ys \<Longrightarrow> y \<in> set ys \<Longrightarrow> y \<le> last ys"
  by (induction ys) (auto split: if_splits)

lemma sort_key_ne: "xs \<noteq> [] \<Longrightarrow> sort_key f xs \<noteq> []"
proof
  assume "xs \<noteq> []" and "sort_key f xs = []"
  then have "length xs = 0" using length_sort [of f xs] by simp
  then show False using \<open>xs \<noteq> []\<close> by simp
qed

lemma last_sort_key_mem: "xs \<noteq> [] \<Longrightarrow> last (sort_key f xs) \<in> set xs"
  using last_in_set [OF sort_key_ne, of xs f] by simp

lemma sort_key_last_max:
  assumes "x \<in> set xs"
  shows "f x \<le> f (last (sort_key f xs))"
proof -
  have "xs \<noteq> []" using assms by auto
  then have ne: "sort_key f xs \<noteq> []" by (rule sort_key_ne)
  have "f x \<in> set (map f (sort_key f xs))" using assms by simp
  moreover have "sorted (map f (sort_key f xs))" by simp
  ultimately have "f x \<le> last (map f (sort_key f xs))" by (rule sorted_last_max [rotated])
  then show ?thesis using ne by (simp add: last_map)
qed

lemma last_case:
  "(case zs of [] \<Rightarrow> Inl IndexError | x # xs \<Rightarrow> Inr (snd (last (x # xs)))) =
   (if zs = [] then Inl IndexError else Inr (snd (last zs)))"
  by (cases zs) simp_all

lemma pick_best_eq:
  "pick_best U set_order urls =
     (if set_order urls = [] then Inl IndexError
      else Inr (snd (last (sort_key fst (map (\<lambda>u. (key_of U u, u)) (set_order urls))))))"
proof (cases "set_order urls = []")
  case True
  then show ?thesis by (simp add: pick_best_def keyed_eq)
next
  case False
  then have "map (\<lambda>u. (key_of U u, u)) (set_order urls) \<noteq> []" by simp
  then have "sort_key fst (map (\<lambda>u. (key_of U u, u)) (set_order urls)) \<noteq> []"
    by (rule sort_key_ne)
  then show ?thesis
    using False by (simp add: pick_best_def keyed_eq last_case)
qed

lemma pick_best_max:
  assumes "set (set_order urls) = set urls" and "urls \<noteq> []"
  shows "\<exists>u. pick_best U set_order urls = Inr u \<and> u \<in> set urls \<and>
             (\<forall>v \<in> set urls. key_of U v \<le> key_of U u)"
proof -
  define kus where "kus = map (\<lambda>u. (key_of U u, u)) (set_order urls)"
  define best where "best = last (sort_key fst kus)"
  have so: "set_order urls \<noteq> []" using assms by auto
  then have ne: "kus \<noteq> []" by (simp add: kus_def)
  have pb: "pick_best U set_order urls = Inr (snd best)"
    using so by (simp add: pick_best_eq best_def kus_def)
  have "best \<in> set kus" unfolding best_def using ne by (rule last_sort_key_mem)
  then have "best \<in> (\<lambda>u. (key_of U u, u)) ` set (set_order urls)"
    by (simp add: kus_def)
  then obtain u where u: "u \<in> set (set_order urls)" "best = (key_of U u, u)"
    by (rule imageE)
  have in_urls: "snd best \<in> set urls" using u assms(1) by simp
  have key: "fst best = key_of U (snd best)" by (simp add: u(2))
  have "key_of U v \<le> key_of U (snd best)" if "v \<in> set urls" for v
  proof -
    have "v \<in> set (set_order urls)" using that by (simp only: assms(1))
    then have "(key_of U v, v) \<in> set kus" by (simp add: kus_def image_iff)
    then have "fst (key_of U v, v) \<le> fst best"
      unfolding best_def by (rule sort_key_last_max)
    then show ?thesis by (simp only: key fst_conv)
  qed
  then show ?thesis using pb in_urls by blast
qed

lemma score_link_a: "score basic_latin link_a = Inr (2024, 1, 5, 2024, 1, 1)"
  by code_simp

lemma score_link_b: "score basic_latin link_b = Inr (2024, 1, 12, 2024, 1, 8)"
  by code_simp

lemma score_link_c: "score basic_latin link_c = Inr (2024, 1, 12, 2024, 1, 8)"
  by code_simp

lemma key_of_links:
  "key_of basic_latin link_a = (2024, 1, 5, 2024, 1, 1)"
  "key_of basic_latin link_b = (2024, 1, 12, 2024, 1, 8)"
  by (simp_all add: key_of_def score_link_a score_link_b)

lemma pick_best_links:
  assumes "set (set_order [link_a, link_b]) = {link_a, link_b}"
  shows "pick_best basic_latin set_order [link_a, link_b] = Inr link_b"
proof -
  have s: "set (set_order [link_a, link_b]) = set [link_a, link_b]" using assms by simp
  have ne: "[link_a, link_b] \<noteq> []" by simp
  from pick_best_max [of set_order "[link_a, link_b]" basic_latin, OF s ne]
  obtain u where u: "pick_best basic_latin set_order [link_a, link_b] = Inr u"
    "u \<in> set [link_a, link_b]"
    "\<forall>v \<in> set [link_a, link_b]. key_of basic_latin v \<le> key_of basic_latin u"
    by auto
  have "u \<noteq> link_a"
  proof
    assume "u = link_a"
    then have "key_of basic_latin link_b \<le> key_of basic_latin link_a" using u(3) by simp
    then show False by (simp add: key_of_links)
  qed
  then have "u = link_b" using u(2) by simp
  then show ?thesis using u(1) by simp
qed

text \<open>
  For every non-empty list of links, in whatever order its set is iterated,
  \<open>pick_best\<close> returns one of the links, and the key \<open>score\<close> gives to that link is
  the greatest. The link with the range 8\_1\_24-12\_1\_24 is chosen over the one with
  1\_1\_24-5\_1\_24, and writing the year as 24 or as 2024 gives the same key.
\<close>

lemma pick_best_greatest_key:
  "(set (set_order urls) = set urls \<and> urls \<noteq> [] \<longrightarrow>
      (\<exists>u k. pick_best U set_order urls = Inr u \<and> u \<in> set urls \<and> score U u = Inr k \<and>
         (\<forall>v \<in> set urls. \<exists>kv. score U v = Inr kv \<and> kv \<le> k))) \<and>
   score basic_latin link_a = Inr (2024, 1, 5, 2024, 1, 1) \<and>
   score basic_latin link_b = Inr (2024, 1, 12, 2024, 1, 8) \<and>
   (set (set_order [link_a, link_b]) = {link_a, link_b} \<longrightarrow>
      pick_best basic_latin set_order [link_a, link_b] = Inr link_b) \<and>
   score basic_latin link_c = score basic_latin link_b"
proof -
  have "\<exists>u k. pick_best U set_order urls = Inr u \<and> u \<in> set urls \<and> score U u = Inr k \<and>
         (\<forall>v \<in> set urls. \<exists>kv. score U v = Inr kv \<and> kv \<le> k)"
    if "set (set_order urls) = set urls" "urls \<noteq> []"
  proof -
    from pick_best_max [of set_order urls U, OF that]
    obtain u where u: "pick_best U set_order urls = Inr u" "u \<in> set urls"
      "\<forall>v \<in> set urls. key_of U v \<le> key_of U u"
      by blast
    show ?thesis
      using u score_key_of by blast
  qed
  then show ?thesis
    using pick_best_links [of set_order]
    by (simp add: score_link_a score_link_b score_link_c)
qed

text \<open>
  The key in terms of the six numbers of the name: the end year is moved to the
  2000s when it is below 100, the start year when it is at most 100.
\<close>

lemma score_groups:
  assumes "search U name_pattern u = Some [d1, s1, m1, s2, y1, s3, d2, s4, m2, s5, y2]"
    and "py_int U d1 = Inr vd1" and "py_int U m1 = Inr vm1" and "py_int U y1 = Inr vy1"
    and "py_int U d2 = Inr vd2" and "py_int U m2 = Inr vm2" and "py_int U y2 = Inr vy2"
  shows "score U u =
           Inr (if vy2 < 100 then vy2 + 2000 else vy2, vm2, vd2,
                if vy1 \<le> 100 then 2000 + vy1 else vy1, vm1, vd1)"
  using assms by (simp add: score_def and_then_def Let_def)

lemma score_link_100: "score basic_latin link_100 = Inr (2024, 1, 1, 2100, 1, 1)"
  unfolding link_100_def by code_simp

lemma score_link_101: "score basic_latin link_101 = Inr (2024, 1, 1, 101, 1, 1)"
  unfolding link_101_def by code_simp

lemma score_link_100_100: "score basic_latin link_100_100 = Inr (100, 1, 5, 2100, 1, 1)"
  unfolding link_100_100_def by code_simp

lemma link_100_101: "link_100 \<noteq> link_101"
  by (simp add: link_100_def link_101_def ascii_def)

lemma pick_best_pair:
  assumes s: "set (set_order urls) = set urls" and ab: "set urls = {a, b}"
    and lt: "key_of U a < key_of U b"
  shows "pick_best U set_order urls = Inr b"
proof -
  have ne: "urls \<noteq> []" using ab by auto
  from pick_best_max [of set_order urls U, OF s ne]
  obtain u where u: "pick_best U set_order urls = Inr u" "u \<in> set urls"
    "\<forall>v \<in> set urls. key_of U v \<le> key_of U u"
    by blast
  have "u \<noteq> a"
  proof
    assume "u = a"
    moreover have "b \<in> set urls" using ab by simp
    ultimately have "key_of U b \<le> key_of U a" using u(3) by blast
    then show False using lt by simp
  qed
  then have "u = b" using u(2) ab by simp
  then show ?thesis using u(1) by simp
qed

text \<open>
  C8. The key of a link is (end year, end month, end day, start year, start month,
  start day) with the two-digit years moved to the 2000s. \<open>score\<close> tests the end
  year with \<open>y2 < 100\<close> but the start year with \<open>int(y1) > 100\<close>, so the three-digit
  year 100 stays 100 at the end of a range and becomes 2100 at its start: the key of
  1\_1\_100-1\_1\_2024 is (2024, 1, 1, 2100, 1, 1) where the key of its dates is
  (2024, 1, 1, 100, 1, 1), and \<open>pick_best\<close> returns that link although the range of
  1\_1\_101-1\_1\_2024 ends on the same day and starts a year later.
\<close>

theorem pick_best_start_year_100:
  "score basic_latin link_100 = Inr (2024, 1, 1, 2100, 1, 1) \<and>
   score basic_latin link_101 = Inr (2024, 1, 1, 101, 1, 1) \<and>
   score basic_latin link_100_100 = Inr (100, 1, 5, 2100, 1, 1) \<and>
   pick_best basic_latin remdups [link_100, link_101] = Inr link_100 \<and>
   pick_best basic_latin remdups [link_101, link_100] = Inr link_100"
proof -
  have lt: "key_of basic_latin link_101 < key_of basic_latin link_100"
    by (simp add: key_of_def score_link_100 score_link_101)
  have a: "pick_best basic_latin remdups [link_100, link_101] = Inr link_100"
    by (rule pick_best_pair [OF _ _ lt]) auto
  have b: "pick_best basic_latin remdups [link_101, link_100] = Inr link_100"
    by (rule pick_best_pair [OF _ _ lt]) auto
  show ?thesis
    using a b by (simp add: score_link_100 score_link_101 score_link_100_100)
qed

section \<open>Normalised text\<close>

lemma strip_sublist: "sublist (strip s) s"
proof -
  have "sublist (dropWhile is_space (rev (dropWhile is_space s))) (rev (dropWhile is_space s))"
    by (rule sublist_dropWhile)
  then have "sublist (strip s) (dropWhile is_space s)"
    by (simp add: strip_def sublist_rev_left)
  then show ?thesis
    using sublist_dropWhile [of is_space s] by (rule sublist_order.order.trans)
qed

lemma strip_set: "set (strip s) \<subseteq> set s"
  using strip_sublist by (rule set_mono_sublist)

lemma dropWhile_hd: "dropWhile P xs \<noteq> [] \<Longrightarrow> \<not> P (hd (dropWhile P xs))"
  by (rule hd_dropWhile)

lemma strip_stripped: "stripped (strip s)"
proof (cases "strip s = []")
  case True
  then show ?thesis by (simp add: stripped_def)
next
  case False
  let ?t = "dropWhile is_space s"
  let ?r = "dropWhile is_space (rev ?t)"
  have r: "?r \<noteq> []" using False by (simp add: strip_def)
  have last: "\<not> is_space (last (strip s))"
    using hd_dropWhile [OF r] r by (simp add: strip_def last_rev)
  have t: "?t \<noteq> []"
  proof
    assume e: "?t = []"
    have "?r = []" unfolding e by simp
    then show False using r by (simp only:)
  qed
  obtain zs where zs: "rev ?t = zs @ ?r"
    by (metis takeWhile_dropWhile_id)
  then have "?t = rev ?r @ rev zs" by (metis rev_append rev_rev_ident)
  then have "hd ?t = hd (rev ?r)" using r by (metis hd_append2 rev_is_Nil_conv)
  then have "\<not> is_space (hd (strip s))"
    using hd_dropWhile [OF t] by (simp add: strip_def)
  then show ?thesis using last by (simp add: stripped_def)
qed

lemma dropWhile_id: "xs = [] \<or> \<not> P (hd xs) \<Longrightarrow> dropWhile P xs = xs"
  by (cases xs) auto

lemma strip_id: "stripped s \<Longrightarrow> strip s = s"
proof (cases "s = []")
  case True
  then show ?thesis by (simp add: strip_def)
next
  case False
  assume "stripped s"
  then have h: "\<not> is_space (hd s)" and l: "\<not> is_space (last s)"
    using False by (simp_all add: stripped_def)
  have a: "dropWhile is_space s = s" using h by (simp add: dropWhile_id)
  have "hd (rev s) = last s" using False by (simp add: hd_rev)
  then have b: "dropWhile is_space (rev s) = rev s" using l by (simp add: dropWhile_id)
  show ?thesis by (simp add: strip_def a b)
qed

lemma no_double_sp_Cons:
  "no_double_sp (x # ys) \<longleftrightarrow> \<not> (x = SP \<and> ys \<noteq> [] \<and> hd ys = SP) \<and> no_double_sp ys"
  by (cases ys) (auto simp: no_double_sp_def sublist_Cons_right)

lemma no_double_sp_Nil: "no_double_sp []"
  by (simp add: no_double_sp_def)

lemma no_triple_nl_Cons3:
  "no_triple_nl (a # b # c # cs) \<longleftrightarrow> \<not> (a = NL \<and> b = NL \<and> c = NL) \<and> no_triple_nl (b # c # cs)"
  by (auto simp: no_triple_nl_def sublist_Cons_right)

lemma no_triple_nl_short: "length s < 3 \<Longrightarrow> no_triple_nl s"
  using sublist_length_le [of "[NL, NL, NL]" s] by (auto simp: no_triple_nl_def)

lemma replace_id: "a \<notin> set s \<Longrightarrow> replace a b s = s"
  by (induction s) (auto simp: replace_def)

lemma replace_set: "a \<noteq> b \<Longrightarrow> a \<notin> set (replace a b s)"
  by (auto simp: replace_def)

lemma replace_set_subset: "set (replace a b s) \<subseteq> insert b (set s)"
  by (auto simp: replace_def)

lemma replace_no_double_sp:
  "a \<noteq> SP \<Longrightarrow> b \<noteq> SP \<Longrightarrow> no_double_sp s \<Longrightarrow> no_double_sp (replace a b s)"
proof (induction s)
  case Nil
  then show ?case by (simp add: replace_def no_double_sp_Nil)
next
  case (Cons x xs)
  have hd: "hd (replace a b xs) = SP \<longleftrightarrow> hd xs = SP" if "xs \<noteq> []"
    using that Cons.prems(1,2) by (cases xs) (auto simp: replace_def)
  have r: "replace a b (x # xs) = (if x = a then b else x) # replace a b xs"
    by (simp add: replace_def)
  have ne: "replace a b xs \<noteq> [] \<longleftrightarrow> xs \<noteq> []" by (simp add: replace_def)
  from Cons.prems(3) have x: "\<not> (x = SP \<and> xs \<noteq> [] \<and> hd xs = SP)" and xs: "no_double_sp xs"
    by (simp_all add: no_double_sp_Cons)
  have "no_double_sp (replace a b xs)" using Cons.IH Cons.prems(1,2) xs by simp
  then show ?case
    using x hd Cons.prems(1,2) unfolding r by (auto simp: no_double_sp_Cons ne)
qed

lemma sub_blanks_set: "set (sub_blanks s) \<subseteq> insert SP (set s)"
  by (induction s rule: sub_blanks.induct) auto

lemma sub_blanks_no_tab: "TAB \<notin> set (sub_blanks s)"
  by (induction s rule: sub_blanks.induct) (auto simp: is_blank_def SP_def TAB_def)

lemma sub_blanks_ne: "s \<noteq> [] \<Longrightarrow> sub_blanks s \<noteq> []"
  by (induction s rule: sub_blanks.induct) auto

lemma sub_blanks_hd: "hd (sub_blanks (d # cs)) = SP \<longleftrightarrow> is_blank d"
  by (induction "d # cs" arbitrary: d cs rule: sub_blanks.induct) (auto simp: is_blank_def)

lemma sub_blanks_no_double_sp: "no_double_sp (sub_blanks s)"
proof (induction s rule: sub_blanks.induct)
  case 1
  then show ?case by (simp add: no_double_sp_Nil)
next
  case (2 c)
  then show ?case by (simp add: no_double_sp_Cons no_double_sp_Nil)
next
  case (3 c d cs)
  then show ?case
    by (auto simp: no_double_sp_Cons sub_blanks_hd sub_blanks_ne is_blank_def)
qed

lemma sub_blanks_id: "TAB \<notin> set s \<Longrightarrow> no_double_sp s \<Longrightarrow> sub_blanks s = s"
proof (induction s rule: sub_blanks.induct)
  case 1
  then show ?case by simp
next
  case (2 c)
  then show ?case by (auto simp: is_blank_def)
next
  case (3 c d cs)
  then show ?case by (auto simp: no_double_sp_Cons is_blank_def)
qed

lemma sub_newlines_set: "set (sub_newlines s) \<subseteq> set s"
  by (induction s rule: sub_newlines.induct) auto

lemma sub_newlines_hd: "s \<noteq> [] \<Longrightarrow> sub_newlines s \<noteq> [] \<and> hd (sub_newlines s) = hd s"
  by (induction s rule: sub_newlines.induct) auto

lemma sub_newlines_no_double_sp: "no_double_sp s \<Longrightarrow> no_double_sp (sub_newlines s)"
proof (induction s rule: sub_newlines.induct)
  case (1 a b c cs)
  have h: "sub_newlines (b # c # cs) \<noteq> [] \<and> hd (sub_newlines (b # c # cs)) = b"
    using sub_newlines_hd [of "b # c # cs"] by simp
  from "1.prems" have p: "\<not> (a = SP \<and> b = SP)" "no_double_sp (b # c # cs)"
    by (simp_all add: no_double_sp_Cons)
  show ?case
  proof (cases "a = NL \<and> b = NL \<and> c = NL")
    case True
    then show ?thesis using "1.IH"(1) p(2) by simp
  next
    case False
    have eq: "sub_newlines (a # b # c # cs) = a # sub_newlines (b # c # cs)"
      by (simp only: sub_newlines.simps(1) False if_False)
    have "no_double_sp (sub_newlines (b # c # cs))" using "1.IH"(2) [OF False p(2)] .
    then show ?thesis unfolding eq using p(1) h by (simp add: no_double_sp_Cons del: sub_newlines.simps)
  qed
qed simp_all

lemma sub_newlines_second:
  "c \<noteq> NL \<Longrightarrow> \<exists>rest. sub_newlines (b # c # cs) = b # c # rest"
proof (cases cs)
  case Nil
  then show ?thesis by simp
next
  case (Cons d ds)
  assume c: "c \<noteq> NL"
  have "sub_newlines (c # d # ds) \<noteq> [] \<and> hd (sub_newlines (c # d # ds)) = c"
    using sub_newlines_hd [of "c # d # ds"] by simp
  then obtain rest where "sub_newlines (c # d # ds) = c # rest"
    by (cases "sub_newlines (c # d # ds)") auto
  then show ?thesis using c Cons by simp
qed

lemma no_triple_nl_Cons:
  "no_triple_nl (a # s) \<longleftrightarrow> \<not> prefix [NL, NL, NL] (a # s) \<and> no_triple_nl s"
  by (auto simp: no_triple_nl_def sublist_Cons_right)

lemma sub_newlines_no_triple: "no_triple_nl (sub_newlines s)"
proof (induction s rule: sub_newlines.induct)
  case (1 a b c cs)
  show ?case
  proof (cases "a = NL \<and> b = NL \<and> c = NL")
    case True
    then show ?thesis using "1.IH"(1) by simp
  next
    case False
    have eq: "sub_newlines (a # b # c # cs) = a # sub_newlines (b # c # cs)"
      by (simp only: sub_newlines.simps(1) False if_False)
    have ih: "no_triple_nl (sub_newlines (b # c # cs))" using "1.IH"(2) [OF False] .
    have h: "sub_newlines (b # c # cs) \<noteq> [] \<and> hd (sub_newlines (b # c # cs)) = b"
      using sub_newlines_hd [of "b # c # cs"] by simp
    have "\<not> prefix [NL, NL, NL] (a # sub_newlines (b # c # cs))"
    proof (cases "a = NL \<and> b = NL")
      case True
      then have "c \<noteq> NL" using False by simp
      then obtain rest where "sub_newlines (b # c # cs) = b # c # rest"
        using sub_newlines_second by blast
      then show ?thesis using \<open>c \<noteq> NL\<close> by (simp del: sub_newlines.simps)
    next
      case False
      then show ?thesis using h
        by (cases "sub_newlines (b # c # cs)") (auto simp del: sub_newlines.simps)
    qed
    then show ?thesis unfolding eq using ih by (simp add: no_triple_nl_Cons del: sub_newlines.simps)
  qed
qed (simp_all add: no_triple_nl_short)

lemma sub_newlines_id: "no_triple_nl s \<Longrightarrow> sub_newlines s = s"
  by (induction s rule: sub_newlines.induct) (auto simp: no_triple_nl_Cons3)

lemma no_double_sp_sublist: "sublist t s \<Longrightarrow> no_double_sp s \<Longrightarrow> no_double_sp t"
  unfolding no_double_sp_def by (meson sublist_order.order.trans)

lemma no_triple_nl_sublist: "sublist t s \<Longrightarrow> no_triple_nl s \<Longrightarrow> no_triple_nl t"
  unfolding no_triple_nl_def by (meson sublist_order.order.trans)

lemma norm_tidy: "tidy (norm c)"
proof -
  define s1 where "s1 = strip (replace NBSP SP (or_empty c))"
  define s2 where "s2 = sub_blanks s1"
  define s3 where "s3 = replace CR NL s2"
  define s4 where "s4 = sub_newlines s3"
  have n: "norm c = strip s4"
    by (simp add: norm_def s1_def s2_def s3_def s4_def)
  have "NBSP \<notin> set (replace NBSP SP (or_empty c))"
    by (rule replace_set) (simp add: char_defs)
  then have a1: "NBSP \<notin> set s1" unfolding s1_def using strip_set by blast
  have a2: "NBSP \<notin> set s2" unfolding s2_def using sub_blanks_set [of s1] a1
    by (auto simp: char_defs)
  have b2: "TAB \<notin> set s2" unfolding s2_def by (rule sub_blanks_no_tab)
  have d2: "no_double_sp s2" unfolding s2_def by (rule sub_blanks_no_double_sp)
  have a3: "NBSP \<notin> set s3" unfolding s3_def using replace_set_subset [of CR NL s2] a2
    by (auto simp: char_defs)
  have b3: "TAB \<notin> set s3" unfolding s3_def using replace_set_subset [of CR NL s2] b2
    by (auto simp: char_defs)
  have c3: "CR \<notin> set s3" unfolding s3_def by (rule replace_set) (simp add: char_defs)
  have d3: "no_double_sp s3" unfolding s3_def
    by (rule replace_no_double_sp) (simp_all add: char_defs d2)
  have sub4: "set s4 \<subseteq> set s3" unfolding s4_def by (rule sub_newlines_set)
  have d4: "no_double_sp s4" unfolding s4_def using d3 by (rule sub_newlines_no_double_sp)
  have e4: "no_triple_nl s4" unfolding s4_def by (rule sub_newlines_no_triple)
  have sub5: "set (strip s4) \<subseteq> set s3" using strip_set [of s4] sub4 by blast
  have d5: "no_double_sp (strip s4)" using strip_sublist d4 by (rule no_double_sp_sublist)
  have e5: "no_triple_nl (strip s4)" using strip_sublist e4 by (rule no_triple_nl_sublist)
  show ?thesis
    unfolding n tidy_def using sub5 a3 b3 c3 d5 e5 strip_stripped by blast
qed

lemma norm_id: "tidy s \<Longrightarrow> norm (Some s) = s"
  by (simp add: tidy_def norm_def or_empty_def replace_id strip_id sub_blanks_id sub_newlines_id)

lemma norm_idem: "norm (Some (norm c)) = norm c"
  using norm_tidy by (rule norm_id)

section \<open>Assembler: the dishes of the record\<close>

lemma update_set: "set (AList.update k v al) \<subseteq> insert (k, v) (set al)"
  by (induction al) auto

lemma clean_update:
  assumes "clean days" and "distinct xs" and "\<forall>x \<in> set xs. tidy x \<and> x \<noteq> []"
  shows "clean (AList.update d xs days)"
  using assms update_set [of d xs days] unfolding clean_def by blast

lemma clean_lookup:
  "clean days \<Longrightarrow> map_of days d = Some xs \<Longrightarrow> distinct xs \<and> (\<forall>x \<in> set xs. tidy x \<and> x \<noteq> [])"
  unfolding clean_def by (blast dest: map_of_SomeD)

lemma add_dish_cases:
  assumes "map_of days d = Some xs"
  shows "add_dish U d dish0 days = Inr days \<or>
         (norm (Some dish0) \<noteq> [] \<and> norm (Some dish0) \<notin> set xs \<and>
          add_dish U d dish0 days = Inr (AList.update d (xs @ [norm (Some dish0)]) days))"
  using assms by (simp add: add_dish_def Let_def)


lemma add_dish_inv:
  assumes "keys_ok days \<and> clean days"
  shows "\<exists>days'. add_dish U d dish0 days = Inr days' \<and> keys_ok days' \<and> clean days'"
proof -
  obtain xs where xs: "map_of days d = Some xs"
    using keys_ok_lookup assms by blast
  from clean_lookup [OF _ xs] assms
  have cx: "distinct xs" "\<forall>x \<in> set xs. tidy x \<and> x \<noteq> []" by auto
  from add_dish_cases [OF xs, of U dish0] show ?thesis
  proof
    assume "add_dish U d dish0 days = Inr days"
    then show ?thesis using assms by simp
  next
    assume a: "norm (Some dish0) \<noteq> [] \<and> norm (Some dish0) \<notin> set xs \<and>
          add_dish U d dish0 days = Inr (AList.update d (xs @ [norm (Some dish0)]) days)"
    have "clean (AList.update d (xs @ [norm (Some dish0)]) days)"
      using assms a cx norm_tidy [of "Some dish0"] by (intro clean_update) auto
    then show ?thesis using a assms keys_ok_update by simp
  qed
qed

lemma read_day_inv:
  assumes "keys_ok days \<and> clean days"
  shows "\<exists>days'. read_day U cols cells d days = Inr days' \<and> keys_ok days' \<and> clean days'"
proof (cases "map_of cols d")
  case None
  then show ?thesis using assms by (simp add: read_day_def)
next
  case (Some j)
  show ?thesis
  proof (cases "j \<ge> length cells")
    case True
    then show ?thesis using Some assms by (simp add: read_day_def)
  next
    case False
    have "\<exists>days'. for_each (cell_to_items (cells ! j)) (add_dish U d) days = Inr days' \<and>
            (keys_ok days' \<and> clean days')"
    proof (rule for_each_invariant)
      show "keys_ok days \<and> clean days" by (rule assms)
    next
      fix x s assume "keys_ok s \<and> clean s"
      then show "\<exists>s'. add_dish U d x s = Inr s' \<and> (keys_ok s' \<and> clean s')"
        by (rule add_dish_inv)
    qed
    then show ?thesis using Some False by (simp add: read_day_def)
  qed
qed

lemma read_row_inv:
  assumes "keys_ok days \<and> clean days"
  shows "\<exists>days'. read_row U cols row days = Inr days' \<and> keys_ok days' \<and> clean days'"
proof (cases "skip_row row")
  case True
  then show ?thesis using assms by (simp add: read_row_def)
next
  case False
  have "\<exists>days'. for_each DAYS_EN (read_day U cols (row_cells row)) days = Inr days' \<and>
          (keys_ok days' \<and> clean days')"
  proof (rule for_each_invariant)
    show "keys_ok days \<and> clean days" by (rule assms)
  next
    fix x s assume "keys_ok s \<and> clean s"
    then show "\<exists>s'. read_day U cols (row_cells row) x s = Inr s' \<and> (keys_ok s' \<and> clean s')"
      by (rule read_day_inv)
  qed
  then show ?thesis using False by (simp add: read_row_def)
qed

lemma drop_day_tokens_eq:
  "map_of days d = Some xs \<Longrightarrow>
   drop_day_tokens U d days = Inr (AList.update d (filter (not_day_token U) xs) days)"
proof -
  have "not_day_token U = (\<lambda>x. upper U (norm (Some x)) \<notin> set day_labels)"
    by (rule ext) (simp add: not_day_token_def)
  then show "map_of days d = Some xs \<Longrightarrow> ?thesis"
    by (simp add: drop_day_tokens_def)
qed

lemma drop_day_tokens_inv:
  assumes "keys_ok days \<and> clean days"
  shows "\<exists>days'. drop_day_tokens U d days = Inr days' \<and> keys_ok days' \<and> clean days'"
proof -
  obtain xs where xs: "map_of days d = Some xs"
    using keys_ok_lookup assms by blast
  from clean_lookup [OF _ xs] assms
  have cx: "distinct xs" "\<forall>x \<in> set xs. tidy x \<and> x \<noteq> []" by auto
  have "clean (AList.update d (filter (not_day_token U) xs) days)"
    using assms cx by (intro clean_update) auto
  then show ?thesis using assms keys_ok_update by (simp add: drop_day_tokens_eq [OF xs])
qed

lemma drop_tokens_lookup:
  "keys_ok days \<Longrightarrow> for_each ds (drop_day_tokens U) days = Inr days' \<Longrightarrow>
   map_of days' e =
     (if e \<in> set ds then map_option (filter (not_day_token U)) (map_of days e) else map_of days e)"
proof (induction ds arbitrary: days)
  case Nil
  then show ?case by simp
next
  case (Cons d ds)
  obtain xs where xs: "map_of days d = Some xs"
    using keys_ok_lookup Cons.prems(1) by blast
  let ?mid = "AList.update d (filter (not_day_token U) xs) days"
  have step: "drop_day_tokens U d days = Inr ?mid" using xs by (rule drop_day_tokens_eq)
  have k: "keys_ok ?mid" using Cons.prems(1) by (rule keys_ok_update)
  have rest: "for_each ds (drop_day_tokens U) ?mid = Inr days'"
    using Cons.prems(2) step by simp
  have mid: "map_of ?mid e = (if e = d then Some (filter (not_day_token U) xs) else map_of days e)"
    by (simp add: update_conv')
  show ?case
    using Cons.IH [OF k rest] mid xs by auto
qed

lemma keys_ok_distinct: "keys_ok days \<Longrightarrow> distinct (map fst days)"
  by (simp add: keys_ok_def DAYS_EN_def)

lemma read_table_result:
  assumes "bt \<noteq> []" and "read_table U bt init_days = Inr days" and "(d, xs) \<in> set days"
  shows "distinct xs \<and> (\<forall>x \<in> set xs. tidy x \<and> x \<noteq> [] \<and> not_day_token U x)"
proof -
  let ?i = "header_row_idx U bt"
  let ?cols = "col_idx_for_day U (bt ! ?i)"
  have i: "?i < length bt" using assms(1) by (rule header_row_idx_in_range)
  have "clean init_days" by (simp add: clean_def init_days_def)
  then have init: "keys_ok init_days \<and> clean init_days"
    using keys_ok_init by simp
  obtain d1 where d1: "for_each (drop (?i + 1) bt) (read_row U ?cols) init_days = Inr d1"
    "keys_ok d1 \<and> clean d1"
    using for_each_invariant [where I = "\<lambda>s. keys_ok s \<and> clean s" and body = "read_row U ?cols"
        and s = init_days and xs = "drop (?i + 1) bt"] read_row_inv init by blast
  obtain d2 where d2: "for_each DAYS_EN (drop_day_tokens U) d1 = Inr d2"
    "keys_ok d2 \<and> clean d2"
    using for_each_invariant [where I = "\<lambda>s. keys_ok s \<and> clean s" and body = "drop_day_tokens U"
        and s = d1 and xs = DAYS_EN] drop_day_tokens_inv d1(2) by blast
  have "read_table U bt init_days = Inr d2"
    using i d1(1) d2(1) by (simp add: read_table_def Let_def)
  then have days: "days = d2" using assms(2) by simp
  have look: "map_of d2 d = Some xs"
    using assms(3) d2(2) keys_ok_distinct unfolding days by (simp add: map_of_eq_Some_iff)
  from clean_lookup [OF _ look] d2(2)
  have c: "distinct xs" "\<forall>x \<in> set xs. tidy x \<and> x \<noteq> []" by auto
  have "map_of d2 d = map_option (filter (not_day_token U)) (map_of d1 d)"
    using drop_tokens_lookup [OF _ d2(1), of d] d1(2) weekday_in_DAYS_EN [of d] by simp
  then obtain ys where "xs = filter (not_day_token U) ys"
    using look by (cases "map_of d1 d") auto
  then have "\<forall>x \<in> set xs. not_day_token U x" by simp
  then show ?thesis using c by blast
qed

lemma extract_result:
  assumes "extract_menu_from_pdf U doc = Inr (days, date_range)" and "(d, xs) \<in> set days"
  shows "distinct xs \<and> (\<forall>x \<in> set xs. tidy x \<and> x \<noteq> [] \<and> not_day_token U x)"
proof -
  have empty: ?thesis if "days = init_days"
    using that assms(2) by (auto simp: init_days_def)
  from assms(1) obtain pdf :: pdf where "with_body U (pages pdf) = Inr (days, date_range)"
    by (auto simp: extract_Inr)
  then consider "days = init_days"
    | pg tx where "read_page U pg tx = Inr (days, date_range)"
    by (auto simp: with_body_Inr)
  then show ?thesis
  proof cases
    case 1
    then show ?thesis by (rule empty)
  next
    case 2
    show ?thesis
    proof (cases "fallback pg (fst (select_best U pg))")
      case None
      then show ?thesis using 2 empty by (simp add: read_page_def)
    next
      case (Some bt)
      show ?thesis
      proof (cases "bt = []")
        case True
        then show ?thesis using Some 2 empty by (simp add: read_page_def)
      next
        case False
        have "read_table U bt init_days = Inr days"
          using Some False 2
          by (cases "read_table U bt init_days") (simp_all add: read_page_def)
        from read_table_result [OF False this assms(2)] show ?thesis .
      qed
    qed
  qed
qed

text \<open>
  C10. Every string in every weekday list of the returned record is non-empty, has
  no whitespace at either end, equals its own normalisation, and its normalised
  upper-cased form is no key of \<open>DAY_MAP\<close>.
\<close>

theorem dishes_normalised:
  assumes "extract_menu_from_pdf U doc = Inr (days, date_range)"
    and "(d, xs) \<in> set days" and "x \<in> set xs"
  shows "x \<noteq> [] \<and> \<not> is_space (hd x) \<and> \<not> is_space (last x) \<and> norm (Some x) = x \<and>
         upper U (norm (Some x)) \<notin> set day_labels"
proof -
  from extract_result [OF assms(1,2)] assms(3)
  have x: "tidy x" "x \<noteq> []" "not_day_token U x" by auto
  have "stripped x" using x(1) by (simp add: tidy_def)
  then have "\<not> is_space (hd x) \<and> \<not> is_space (last x)" using x(2) by (simp add: stripped_def)
  then show ?thesis using x norm_id [OF x(1)] by (simp add: not_day_token_def)
qed

theorem dishes_normalised_witness:
  "extract_menu_from_pdf basic_latin (document [page4]) =
     Inr ([(Monday, [ascii ''Corba'']), (Tuesday, [ascii ''Pilav'']),
           (Wednesday, [ascii ''Tavuk'']), (Thursday, [ascii ''Makarna'']),
           (Friday, [ascii ''Balik''])], None) \<and>
   ascii ''Corba'' \<noteq> [] \<and> \<not> is_space (hd (ascii ''Corba'')) \<and>
   \<not> is_space (last (ascii ''Corba'')) \<and> norm (Some (ascii ''Corba'')) = ascii ''Corba'' \<and>
   upper basic_latin (norm (Some (ascii ''Corba''))) \<notin> set day_labels"
proof -
  have "(Monday, [ascii ''Corba'']) \<in> set [(Monday, [ascii ''Corba'']),
      (Tuesday, [ascii ''Pilav'']), (Wednesday, [ascii ''Tavuk'']),
      (Thursday, [ascii ''Makarna'']), (Friday, [ascii ''Balik''])]"
    and "ascii ''Corba'' \<in> set [ascii ''Corba'']"
    by simp_all
  from dishes_normalised [OF extract_page4 this] extract_page4
  show ?thesis by blast
qed

section \<open>Assembler: duplicates\<close>








section \<open>Cell Normalizer: cells of several lines\<close>

lemma norm_set: "set (norm c) \<subseteq> set (or_empty c) \<union> {SP, NL}"
proof -
  define s0 where "s0 = replace NBSP SP (or_empty c)"
  define s1 where "s1 = strip s0"
  define s2 where "s2 = sub_blanks s1"
  define s3 where "s3 = replace CR NL s2"
  define s4 where "s4 = sub_newlines s3"
  have n: "norm c = strip s4"
    by (simp add: norm_def s0_def s1_def s2_def s3_def s4_def)
  have "set s0 \<subseteq> insert SP (set (or_empty c))" unfolding s0_def by (rule replace_set_subset)
  moreover have "set s1 \<subseteq> set s0" unfolding s1_def by (rule strip_set)
  moreover have "set s2 \<subseteq> insert SP (set s1)" unfolding s2_def by (rule sub_blanks_set)
  moreover have "set s3 \<subseteq> insert NL (set s2)" unfolding s3_def by (rule replace_set_subset)
  moreover have "set s4 \<subseteq> set s3" unfolding s4_def by (rule sub_newlines_set)
  moreover have "set (strip s4) \<subseteq> set s4" by (rule strip_set)
  ultimately show ?thesis unfolding n by blast
qed

lemma split_nl_ne: "split_nl s \<noteq> []"
  by (induction s) (auto split: list.splits)

lemma split_nl_pieces: "p \<in> set (split_nl s) \<Longrightarrow> sublist p s \<and> NL \<notin> set p"
proof (induction s arbitrary: p)
  case Nil
  then show ?case by simp
next
  case (Cons c cs)
  show ?case
  proof (cases "c = NL")
    case True
    then have "p = [] \<or> p \<in> set (split_nl cs)" using Cons.prems by simp
    then show ?thesis
    proof
      assume "p = []"
      then show ?thesis by simp
    next
      assume "p \<in> set (split_nl cs)"
      from Cons.IH [OF this] show ?thesis by (simp add: sublist_Cons_right)
    qed
  next
    case False
    obtain l ls where sp: "split_nl cs = l # ls"
      using split_nl_ne [of cs] by (cases "split_nl cs") auto
    then have "p = c # l \<or> p \<in> set ls" using Cons.prems False by simp
    then show ?thesis
    proof
      assume p: "p = c # l"
      have l: "l \<in> set (split_nl cs)" by (simp add: sp)
      have pre: "prefix l cs"
        using sp
      proof (induction cs arbitrary: l ls)
        case Nil
        then show ?case by simp
      next
        case (Cons d ds)
        then show ?case
          by (cases "d = NL"; cases "split_nl ds") (auto simp: split_nl_ne)
      qed
      from Cons.IH [OF l] have "NL \<notin> set l" by simp
      then show ?thesis using p pre False by (simp add: sublist_Cons_right)
    next
      assume "p \<in> set ls"
      then have "p \<in> set (split_nl cs)" by (simp add: sp)
      from Cons.IH [OF this] show ?thesis by (simp add: sublist_Cons_right)
    qed
  qed
qed

lemma split_nl_single: "NL \<notin> set s \<Longrightarrow> split_nl s = [s]"
  by (induction s) auto

lemma cell_lines_ok:
  assumes "tidy t" and "BULLET \<notin> set t" and "l \<in> set (cell_lines t)"
  shows "line_ok l"
proof -
  from assms(3) obtain p where p: "p \<in> set (split_nl t)" "strip p \<noteq> []" "l = strip p"
    by (auto simp: cell_lines_def)
  from split_nl_pieces [OF p(1)] have sp: "sublist p t" "NL \<notin> set p" by simp_all
  have sl: "sublist l t"
    unfolding p(3) using strip_sublist sp(1) by (rule sublist_order.order.trans)
  have set_l: "set l \<subseteq> set t" using sl by (rule set_mono_sublist)
  have "set l \<subseteq> set p" unfolding p(3) by (rule strip_set)
  then have nl: "NL \<notin> set l" using sp(2) by blast
  have d: "no_double_sp l" using sl assms(1) by (auto simp: tidy_def intro: no_double_sp_sublist)
  have st: "stripped l" unfolding p(3) by (rule strip_stripped)
  show ?thesis
    unfolding line_ok_def using p(2,3) st d nl set_l assms(1,2) by (auto simp: tidy_def)
qed

lemma no_double_sp_append:
  "no_double_sp (xs @ ys) \<longleftrightarrow>
     no_double_sp xs \<and> no_double_sp ys \<and> \<not> (xs \<noteq> [] \<and> ys \<noteq> [] \<and> last xs = SP \<and> hd ys = SP)"
proof (induction xs)
  case Nil
  then show ?case by (simp add: no_double_sp_Nil)
next
  case (Cons x xs)
  show ?case
  proof (cases "xs = []")
    case True
    then show ?thesis by (auto simp: no_double_sp_Cons no_double_sp_Nil)
  next
    case False
    then have "hd (xs @ ys) = hd xs" by simp
    then show ?thesis using False Cons.IH by (auto simp: no_double_sp_Cons)
  qed
qed

lemma is_space_SP: "is_space SP"
  by (simp add: is_space_def SP_def)

lemma join_sp_ok: "ls \<noteq> [] \<Longrightarrow> \<forall>l \<in> set ls. line_ok l \<Longrightarrow> line_ok (join_sp ls)"
proof (induction ls rule: join_sp.induct)
  case 1
  then show ?case by simp
next
  case (2 l)
  then show ?case by simp
next
  case (3 l m ls)
  let ?r = "join_sp (m # ls)"
  have l: "line_ok l" and r: "line_ok ?r" using 3 by simp_all
  have lne: "l \<noteq> []" and rne: "?r \<noteq> []" using l r by (simp_all add: line_ok_def)
  have ll: "last l \<noteq> SP" and hr: "hd ?r \<noteq> SP"
    using l r lne rne is_space_SP by (auto simp: line_ok_def stripped_def)
  have eq: "join_sp (l # m # ls) = l @ SP # ?r" by simp
  have d: "no_double_sp (l @ SP # ?r)"
    using l r ll hr rne by (simp add: no_double_sp_append no_double_sp_Cons line_ok_def)
  have st: "stripped (l @ SP # ?r)"
    using l r lne rne by (simp add: stripped_def line_ok_def)
  have mem: "NBSP \<notin> set (l @ SP # ?r) \<and> TAB \<notin> set (l @ SP # ?r) \<and> CR \<notin> set (l @ SP # ?r) \<and>
    NL \<notin> set (l @ SP # ?r) \<and> BULLET \<notin> set (l @ SP # ?r)"
    using l r by (simp add: line_ok_def) (simp add: char_defs)
  show ?case unfolding eq line_ok_def using d st mem by simp
qed

lemma line_ok_tidy: "line_ok l \<Longrightarrow> tidy l"
proof -
  assume l: "line_ok l"
  have "no_triple_nl l"
  proof (rule ccontr)
    assume "\<not> no_triple_nl l"
    then have "sublist [NL, NL, NL] l" by (simp add: no_triple_nl_def)
    then have "set [NL, NL, NL] \<subseteq> set l" by (rule set_mono_sublist)
    then show False using l by (simp add: line_ok_def)
  qed
  then show ?thesis using l by (simp add: tidy_def line_ok_def)
qed

lemma cell_to_items_line:
  assumes "line_ok l"
  shows "cell_to_items (Some l) = [l]"
proof -
  have t: "tidy l" using assms by (rule line_ok_tidy)
  have n: "norm (Some l) = l" using t by (rule norm_id)
  have ne: "l \<noteq> []" and b: "BULLET \<notin> set l" and nl: "NL \<notin> set l" and st: "stripped l"
    using assms by (simp_all add: line_ok_def)
  have r: "strip (replace BULLET SP l) = l" using b st by (simp add: replace_id strip_id)
  have "cell_lines l = [l]"
    using ne st nl by (simp add: cell_lines_def split_nl_single strip_id)
  then show ?thesis using ne by (simp add: cell_to_items_def n r)
qed

lemma cell_lines_Nil: "cell_lines [] = []"
  by (simp add: cell_lines_def strip_Nil)

lemma dropWhile_keeps: "x \<in> set s \<Longrightarrow> \<not> P x \<Longrightarrow> x \<in> set (dropWhile P s)"
  by (induction s) auto

lemma strip_keeps: "x \<in> set s \<Longrightarrow> \<not> is_space x \<Longrightarrow> x \<in> set (strip s)"
proof -
  assume x: "x \<in> set s" "\<not> is_space x"
  then have "x \<in> set (dropWhile is_space s)" by (rule dropWhile_keeps)
  then have "x \<in> set (rev (dropWhile is_space s))" by simp
  then have "x \<in> set (dropWhile is_space (rev (dropWhile is_space s)))"
    using x(2) by (rule dropWhile_keeps)
  then show ?thesis by (simp add: strip_def)
qed

lemma sub_blanks_keeps: "x \<in> set s \<Longrightarrow> \<not> is_blank x \<Longrightarrow> x \<in> set (sub_blanks s)"
  by (induction s rule: sub_blanks.induct) auto

lemma sub_newlines_keeps: "x \<in> set s \<Longrightarrow> x \<noteq> NL \<Longrightarrow> x \<in> set (sub_newlines s)"
  by (induction s rule: sub_newlines.induct) auto

lemma replace_keeps: "x \<in> set s \<Longrightarrow> x \<noteq> a \<Longrightarrow> x \<in> set (replace a b s)"
  by (auto simp: replace_def)

lemma norm_keeps:
  assumes "x \<in> set (or_empty c)" and "\<not> is_space x"
  shows "x \<in> set (norm c)"
proof -
  have ne: "x \<noteq> NBSP" "x \<noteq> CR" "x \<noteq> NL" "\<not> is_blank x"
    using assms(2) by (auto simp: is_space_def is_blank_def char_defs)
  have "x \<in> set (replace NBSP SP (or_empty c))" using assms(1) ne(1) by (rule replace_keeps)
  then have "x \<in> set (strip (replace NBSP SP (or_empty c)))" using assms(2) by (rule strip_keeps)
  then have "x \<in> set (sub_blanks (strip (replace NBSP SP (or_empty c))))"
    using ne(4) by (rule sub_blanks_keeps)
  then have "x \<in> set (replace CR NL (sub_blanks (strip (replace NBSP SP (or_empty c)))))"
    using ne(2) by (rule replace_keeps)
  then have "x \<in> set (sub_newlines
      (replace CR NL (sub_blanks (strip (replace NBSP SP (or_empty c))))))"
    using ne(3) by (rule sub_newlines_keeps)
  then have "x \<in> set (strip (sub_newlines
      (replace CR NL (sub_blanks (strip (replace NBSP SP (or_empty c)))))))"
    using assms(2) by (rule strip_keeps)
  then show ?thesis by (simp add: norm_def)
qed

lemma norm_no_nl:
  assumes "NL \<notin> set s" and "CR \<notin> set s"
  shows "NL \<notin> set (norm (Some s))"
proof -
  define s1 where "s1 = strip (replace NBSP SP s)"
  define s2 where "s2 = sub_blanks s1"
  have "set s1 \<subseteq> insert SP (set s)"
    unfolding s1_def using strip_set [of "replace NBSP SP s"] replace_set_subset [of NBSP SP s]
    by blast
  then have s2: "set s2 \<subseteq> insert SP (set s)"
    unfolding s2_def using sub_blanks_set [of s1] by blast
  then have "CR \<notin> set s2" using assms(2) by (auto simp: char_defs)
  then have r: "replace CR NL s2 = s2" by (rule replace_id)
  have "set (norm (Some s)) \<subseteq> set s2"
    using strip_set [of "sub_newlines s2"] sub_newlines_set [of s2]
    by (simp add: norm_def or_empty_def s1_def [symmetric] s2_def [symmetric] r)
  then show ?thesis using s2 assms(1) by (auto simp: char_defs)
qed

lemma cell_to_items_one_line:
  assumes "norm c \<noteq> []" and "NL \<notin> set (norm c)" and "BULLET \<notin> set (norm c)"
  shows "cell_to_items c = [norm c]"
proof -
  have t: "tidy (norm c)" by (rule norm_tidy)
  then have st: "stripped (norm c)" by (simp add: tidy_def)
  have r: "strip (replace BULLET SP (norm c)) = norm c"
    using assms(3) st by (simp add: replace_id strip_id)
  have "cell_lines (norm c) = [norm c]"
    using assms(1,2) st by (simp add: cell_lines_def split_nl_single strip_id)
  then show ?thesis using assms(1) by (simp add: cell_to_items_def r)
qed

lemma join_sp_set: "set (join_sp ls) \<subseteq> insert SP (\<Union> (set ` set ls))"
  by (induction ls rule: join_sp.induct) auto

lemma join_sp_hd: "l \<noteq> [] \<Longrightarrow> hd (join_sp (l # ls)) = hd l"
  by (cases ls) simp_all

lemma joined_renormalised:
  assumes "lines = cell_lines (strip (replace BULLET SP (norm c)))" and "lines \<noteq> []"
  shows "cell_to_items (Some (join_sp lines)) = [norm (Some (join_sp lines))]"
proof -
  let ?cell = "strip (replace BULLET SP (norm c))"
  have t: "tidy (norm c)" by (rule norm_tidy)
  have "set ?cell \<subseteq> set (replace BULLET SP (norm c))" by (rule strip_set)
  moreover have "BULLET \<notin> set (replace BULLET SP (norm c))"
    by (rule replace_set) (simp add: char_defs)
  moreover have "set (replace BULLET SP (norm c)) \<subseteq> insert SP (set (norm c))"
    by (rule replace_set_subset)
  ultimately have cell: "BULLET \<notin> set ?cell" "CR \<notin> set ?cell"
    using t by (auto simp: tidy_def char_defs)
  have line: "l \<noteq> [] \<and> \<not> is_space (hd l) \<and> BULLET \<notin> set l \<and> CR \<notin> set l \<and> NL \<notin> set l"
    if "l \<in> set lines" for l
  proof -
    from that obtain p where p: "p \<in> set (split_nl ?cell)" "strip p \<noteq> []" "l = strip p"
      unfolding assms(1) by (auto simp: cell_lines_def)
    from split_nl_pieces [OF p(1)] have sp: "sublist p ?cell" "NL \<notin> set p" by simp_all
    have "set l \<subseteq> set p" unfolding p(3) by (rule strip_set)
    moreover have "set p \<subseteq> set ?cell" using sp(1) by (rule set_mono_sublist)
    moreover have "stripped l" unfolding p(3) by (rule strip_stripped)
    ultimately show ?thesis using p(2,3) sp(2) cell by (auto simp: stripped_def)
  qed
  obtain l ls where ls: "lines = l # ls" using assms(2) by (cases lines) auto
  have l: "l \<noteq> []" "\<not> is_space (hd l)" using line [of l] ls by simp_all
  have h: "hd (join_sp lines) = hd l" unfolding ls using l(1) by (rule join_sp_hd)
  have jne: "join_sp lines \<noteq> []" unfolding ls using l(1) by (cases ls) simp_all
  have "hd (join_sp lines) \<in> set (join_sp lines)" using jne by (rule hd_in_set)
  moreover have "\<not> is_space (hd (join_sp lines))" using l(2) h by simp
  ultimately have "hd (join_sp lines) \<in> set (join_sp lines)" "\<not> is_space (hd (join_sp lines))"
    by simp_all
  then have "hd (join_sp lines) \<in> set (norm (Some (join_sp lines)))"
    by (intro norm_keeps) (simp_all add: or_empty_def)
  then have ne: "norm (Some (join_sp lines)) \<noteq> []" by auto
  have out: "BULLET \<notin> set (join_sp lines)" "CR \<notin> set (join_sp lines)"
    "NL \<notin> set (join_sp lines)"
    using join_sp_set [of lines] line by (auto simp: char_defs)
  have nl: "NL \<notin> set (norm (Some (join_sp lines)))"
    using out(3,2) by (rule norm_no_nl)
  have b: "BULLET \<notin> set (norm (Some (join_sp lines)))"
    using norm_set [of "Some (join_sp lines)"] out(1) by (auto simp: or_empty_def char_defs)
  show ?thesis using ne nl b by (rule cell_to_items_one_line)
qed

lemmas cell_eval = cell_to_items_def cell_lines_def Let_def str_eval

text \<open>
  A cell with two or more non-blank lines gives one dish name, the lines joined by
  single spaces, whether or not a slash is present. Applied to that name,
  \<open>_cell_to_items\<close> gives its normal form; when the cell has no bullet glyph the name
  is in normal form already and is returned unchanged.
\<close>

lemma cell_to_items_several_lines:
  assumes "lines = cell_lines (strip (replace BULLET SP (norm c)))" and "2 \<le> length lines"
  shows "cell_to_items c = [join_sp lines] \<and>
         cell_to_items (Some (join_sp lines)) = [norm (Some (join_sp lines))] \<and>
         (BULLET \<notin> set (or_empty c) \<longrightarrow> cell_to_items (Some (join_sp lines)) = [join_sp lines])"
proof (intro conjI)
  have "lines \<noteq> []" using assms(2) by auto
  with assms(1) show "cell_to_items (Some (join_sp lines)) = [norm (Some (join_sp lines))]"
    by (rule joined_renormalised)
next
  have "norm c \<noteq> []"
  proof
    assume "norm c = []"
    then have "lines = []" using assms(1) by (simp add: replace_def strip_Nil cell_lines_Nil)
    then show False using assms(2) by simp
  qed
  then show "cell_to_items c = [join_sp lines]"
    using assms by (simp add: cell_to_items_def Let_def)
next
  show "BULLET \<notin> set (or_empty c) \<longrightarrow> cell_to_items (Some (join_sp lines)) = [join_sp lines]"
  proof
    assume nb: "BULLET \<notin> set (or_empty c)"
    have t: "tidy (norm c)" by (rule norm_tidy)
    have b: "BULLET \<notin> set (norm c)"
      using norm_set [of c] nb by (auto simp: char_defs)
    have "strip (replace BULLET SP (norm c)) = norm c"
      using b t by (simp add: replace_id strip_id tidy_def)
    then have l: "lines = cell_lines (norm c)" using assms(1) by simp
    have "\<forall>l \<in> set lines. line_ok l"
      unfolding l using cell_lines_ok [OF t b] by blast
    moreover have "lines \<noteq> []" using assms(2) by auto
    ultimately have "line_ok (join_sp lines)" by (intro join_sp_ok)
    then show "cell_to_items (Some (join_sp lines)) = [join_sp lines]"
      by (rule cell_to_items_line)
  qed
qed

lemma cell_to_items_slash_cell:
  "cell_lines (strip (replace BULLET SP (norm (Some slash_cell)))) =
     [ascii ''Soup /'', ascii ''rice''] \<and>
   BULLET \<notin> set slash_cell \<and>
   cell_to_items (Some slash_cell) = [ascii ''Soup / rice''] \<and>
   cell_to_items (Some (ascii ''Soup / rice'')) = [ascii ''Soup / rice'']"
proof -
  have l: "cell_lines (strip (replace BULLET SP (norm (Some slash_cell)))) =
     [ascii ''Soup /'', ascii ''rice'']"
    by (simp add: slash_cell_def cell_eval)
  have j: "join_sp [ascii ''Soup /'', ascii ''rice''] = ascii ''Soup / rice''"
    by (simp add: ascii_def SP_def)
  have b: "BULLET \<notin> set slash_cell" by (simp add: slash_cell_def ascii_def char_defs)
  have h: "or_empty (Some slash_cell) = slash_cell" by (simp add: or_empty_def)
  have len: "2 \<le> length [ascii ''Soup /'', ascii ''rice'']" by simp
  have "cell_to_items (Some slash_cell) = [join_sp [ascii ''Soup /'', ascii ''rice'']] \<and>
        cell_to_items (Some (join_sp [ascii ''Soup /'', ascii ''rice''])) =
          [join_sp [ascii ''Soup /'', ascii ''rice'']]"
    using cell_to_items_several_lines [OF l [symmetric] len] b unfolding h by blast
  then show ?thesis unfolding j using l b by simp
qed

text \<open>
  C4. The dish name of a cell with two or more non-blank lines is to be left
  unchanged by \<open>_cell_to_items\<close>. The bullet glyph is replaced by a space after
  \<open>_norm\<close> has collapsed the blanks, so a bullet next to a blank leaves two spaces:
  the cell whose lines are a, blank, bullet, b and c gives the one dish name
  \<open>a  b c\<close>, its two lines joined by a space, and \<open>_cell_to_items\<close> turns that
  name into \<open>a b c\<close>.
  Without a bullet the name is returned unchanged. The late replacement of the
  bullet is also what makes a cell of bullets alone give an empty dish name.
\<close>

theorem cell_to_items_not_idempotent:
  "cell_lines (strip (replace BULLET SP (norm (Some bullet_cell)))) = [ascii ''a  b'', ascii ''c''] \<and>
   cell_to_items (Some bullet_cell) = [ascii ''a  b c''] \<and>
   cell_to_items (Some (ascii ''a  b c'')) = [ascii ''a b c'']"
  by (simp add: bullet_cell_def cell_eval)

end
